theory Spec2Isabelle
  imports Complex_Main
begin

section \<open>Data model of \<open>ACpathfinder.py\<close>\<close>

text \<open>
  A position is the Python tuple \<open>(floor, row, col)\<close> of unbounded integers. A cell of the
  building matrix is a one-character Python string: \<open>S\<close> source, \<open>R\<close> room, \<open>.\<close> empty,
  \<open>W\<close> wall, \<open>T\<close> stair or lift. The building is \<open>List[List[List[str]]]\<close>, indexed
  \<open>[floor][row][col]\<close>. Python floats (the energy costs) are modelled as exact rationals.
\<close>

type_synonym pos = "int \<times> int \<times> int"

datatype error = IndexError

record pathfinder =
  building :: "string list list list"
  floors :: int
  rows :: int
  cols :: int
  source :: "pos option"
  targets :: "pos list"
  stairs :: "pos list"

text \<open>The dictionary \<open>path_info\<close>; the key \<open>energy_saved\<close> exists only after
  \<open>optimize_energy_usage\<close> has stored it.\<close>

record path_info =
  target_index :: nat
  target_position :: pos
  path :: "pos list"
  steps :: nat
  energy_cost :: rat
  energy_saved :: "rat option"

subsection \<open>Python list indexing and \<open>range\<close>\<close>

text \<open>\<open>xs[i]\<close>: a negative index counts from the end, anything out of range raises.\<close>

definition py_nth :: "'a list \<Rightarrow> int \<Rightarrow> error + 'a" where
  "py_nth xs i =
     (if 0 \<le> i \<and> i < int (length xs) then Inr (xs ! nat i)
      else if i < 0 \<and> - int (length xs) \<le> i then Inr (xs ! nat (int (length xs) + i))
      else Inl IndexError)"

text \<open>\<open>self.building[f][r][c]\<close>\<close>

definition cell :: "pathfinder \<Rightarrow> int \<Rightarrow> int \<Rightarrow> int \<Rightarrow> error + string" where
  "cell pf f r c =
     (case py_nth (building pf) f of
        Inl e \<Rightarrow> Inl e
      | Inr fl \<Rightarrow> (case py_nth fl r of
                    Inl e \<Rightarrow> Inl e
                  | Inr rw \<Rightarrow> py_nth rw c))"

text \<open>\<open>range(a, b)\<close> is \<open>[a..b - 1]\<close>; \<open>range(start, stop, step)\<close> follows CPython's
  length formula (a zero step, which the source never passes, yields no element here).\<close>

definition py_range :: "int \<Rightarrow> int \<Rightarrow> int \<Rightarrow> int list" where
  "py_range start stop step =
     (if 0 < step then map (\<lambda>k. start + step * k) [0..(stop - start + step - 1) div step - 1]
      else if step < 0 then
        map (\<lambda>k. start + step * k) [0..(start - stop - step - 1) div (- step) - 1]
      else [])"

subsection \<open>Construction: \<open>__init__\<close>, \<open>_find_position\<close>, \<open>_find_all_positions\<close>\<close>

text \<open>The three nested \<open>for\<close> loops over \<open>range(floors)\<close>, \<open>range(rows)\<close>,
  \<open>range(cols)\<close> visit the positions in this order.\<close>

definition grid_positions :: "pathfinder \<Rightarrow> pos list" where
  "grid_positions pf =
     concat (map (\<lambda>f. concat (map (\<lambda>r. map (\<lambda>c. (f, r, c)) [0..cols pf - 1])
                                    [0..rows pf - 1]))
                 [0..floors pf - 1])"

fun find_first :: "pathfinder \<Rightarrow> string \<Rightarrow> pos list \<Rightarrow> error + pos option" where
  "find_first pf symbol [] = Inr None"
| "find_first pf symbol ((f, r, c) # ps) =
     (case cell pf f r c of
        Inl e \<Rightarrow> Inl e
      | Inr s \<Rightarrow> if s = symbol then Inr (Some (f, r, c)) else find_first pf symbol ps)"

definition find_position :: "pathfinder \<Rightarrow> string \<Rightarrow> error + pos option" where
  "find_position pf symbol = find_first pf symbol (grid_positions pf)"

fun find_all :: "pathfinder \<Rightarrow> string \<Rightarrow> pos list \<Rightarrow> pos list \<Rightarrow> error + pos list" where
  "find_all pf symbol [] positions = Inr positions"
| "find_all pf symbol ((f, r, c) # ps) positions =
     (case cell pf f r c of
        Inl e \<Rightarrow> Inl e
      | Inr s \<Rightarrow> find_all pf symbol ps (if s = symbol then positions @ [(f, r, c)] else positions))"

definition find_all_positions :: "pathfinder \<Rightarrow> string \<Rightarrow> error + pos list" where
  "find_all_positions pf symbol = find_all pf symbol (grid_positions pf) []"

definition init :: "string list list list \<Rightarrow> error + pathfinder" where
  "init building_matrix =
     (let pf0 = \<lparr> building = building_matrix,
                  floors = int (length building_matrix),
                  rows = (if building_matrix \<noteq> [] then int (length (building_matrix ! 0)) else 0),
                  cols = (if building_matrix \<noteq> [] \<and> building_matrix ! 0 \<noteq> []
                          then int (length (building_matrix ! 0 ! 0)) else 0),
                  source = None, targets = [], stairs = [] \<rparr>
      in case find_position pf0 ''S'' of
           Inl e \<Rightarrow> Inl e
         | Inr src \<Rightarrow>
             (case find_all_positions pf0 ''R'' of
                Inl e \<Rightarrow> Inl e
              | Inr tgs \<Rightarrow>
                  (case find_all_positions pf0 ''T'' of
                     Inl e \<Rightarrow> Inl e
                   | Inr sts \<Rightarrow> Inr (pf0 \<lparr> source := src, targets := tgs, stairs := sts \<rparr>))))"

definition directions :: "(int \<times> int) list" where
  "directions = [(- 1, 0), (1, 0), (0, - 1), (0, 1)]"

definition horizontal :: rat where "horizontal = 1"
definition vertical_up :: rat where "vertical_up = 3"
definition vertical_down :: rat where "vertical_down = 2"
definition turn :: rat where "turn = 1 / 2"
definition base_pressure :: rat where "base_pressure = 1 / 10"

subsection \<open>Grid queries\<close>

definition is_valid_position :: "pathfinder \<Rightarrow> int \<Rightarrow> int \<Rightarrow> int \<Rightarrow> error + bool" where
  "is_valid_position pf f r c =
     (if 0 \<le> f \<and> f < floors pf \<and> 0 \<le> r \<and> r < rows pf \<and> 0 \<le> c \<and> c < cols pf
      then (case cell pf f r c of Inl e \<Rightarrow> Inl e | Inr s \<Rightarrow> Inr (s \<noteq> ''W''))
      else Inr False)"

subsection \<open>Cost model: \<open>_calculate_energy_cost\<close>, \<open>_is_turn\<close>\<close>

definition is_turn :: "pos \<Rightarrow> pos \<Rightarrow> pos \<Rightarrow> bool" where
  "is_turn pos1 pos2 pos3 =
     (case (pos1, pos2, pos3) of ((f1, r1, c1), (f2, r2, c2), (f3, r3, c3)) \<Rightarrow>
        (f2 - f1, r2 - r1, c2 - c1) \<noteq> (f3 - f2, r3 - r2, c3 - c2))"

text \<open>One pass of the loop body for index \<open>i\<close>; in the loop \<open>1 \<le> i < len(path)\<close>, so every
  index read is in range.\<close>

definition energy_step :: "pos list \<Rightarrow> nat \<Rightarrow> rat \<Rightarrow> rat" where
  "energy_step p i total_energy =
     (let prev_pos = p ! (i - 1); curr_pos = p ! i;
          t1 = total_energy + base_pressure;
          t2 = (if fst curr_pos \<noteq> fst prev_pos
                then (if fst curr_pos > fst prev_pos then t1 + vertical_up
                      else t1 + vertical_down)
                else t1 + horizontal)
      in if i \<ge> 2 \<and> is_turn (p ! (i - 2)) prev_pos curr_pos then t2 + turn else t2)"

definition calculate_energy_cost :: "pos list \<Rightarrow> rat" where
  "calculate_energy_cost p =
     (if length p < 2 then 0 else fold (energy_step p) [1..<length p] 0)"

subsection \<open>Path densifier: \<open>_expand_path\<close>\<close>

text \<open>What one pass of the loop appends to \<open>dense_path\<close> for the pair
  \<open>(start_pos, end_pos)\<close>.\<close>

definition expand_segment :: "pos \<Rightarrow> pos \<Rightarrow> pos list" where
  "expand_segment start_pos end_pos =
     (case (start_pos, end_pos) of ((f1, r1, c1), (f2, r2, c2)) \<Rightarrow>
        if f1 \<noteq> f2 then [end_pos]
        else if c1 = c2 then
          (let step = (if r2 > r1 then 1 else - 1)
           in map (\<lambda>r. (f1, r, c1)) (py_range (r1 + step) r2 step) @ [end_pos])
        else if r1 = r2 then
          (let step = (if c2 > c1 then 1 else - 1)
           in map (\<lambda>c. (f1, r1, c)) (py_range (c1 + step) c2 step) @ [end_pos])
        else [end_pos])"

fun expand_loop :: "pos list \<Rightarrow> pos list \<Rightarrow> pos list" where
  "expand_loop dense_path (start_pos # end_pos # rest) =
     expand_loop (dense_path @ expand_segment start_pos end_pos) (end_pos # rest)"
| "expand_loop dense_path rest = dense_path"

definition expand_path :: "pos list \<Rightarrow> pos list" where
  "expand_path p = (if length p < 2 then p else expand_loop [p ! 0] p)"

subsection \<open>BFS router: \<open>bfs_pathfinding\<close>\<close>

text \<open>The queue is a \<open>deque\<close> of pairs (position, path so far), popped on the left and
  appended on the right; \<open>visited\<close> is a Python set. The two inner loops of the \<open>while\<close> body
  thread the queue and the visited set.\<close>

fun horizontal_moves ::
  "pathfinder \<Rightarrow> pos \<Rightarrow> pos list \<Rightarrow> (int \<times> int) list \<Rightarrow> (pos \<times> pos list) list \<Rightarrow> pos set
     \<Rightarrow> error + ((pos \<times> pos list) list \<times> pos set)" where
  "horizontal_moves pf (f, r, c) p [] queue visited = Inr (queue, visited)"
| "horizontal_moves pf (f, r, c) p ((dr, dc) # ds) queue visited =
     (let new_r = r + dr; new_c = c + dc; new_pos = (f, new_r, new_c)
      in case is_valid_position pf f new_r new_c of
           Inl e \<Rightarrow> Inl e
         | Inr ok \<Rightarrow>
             if ok \<and> new_pos \<notin> visited
             then horizontal_moves pf (f, r, c) p ds
                    (queue @ [(new_pos, p @ [new_pos])]) (insert new_pos visited)
             else horizontal_moves pf (f, r, c) p ds queue visited)"

fun vertical_moves ::
  "pathfinder \<Rightarrow> pos \<Rightarrow> pos list \<Rightarrow> int list \<Rightarrow> (pos \<times> pos list) list \<Rightarrow> pos set
     \<Rightarrow> error + ((pos \<times> pos list) list \<times> pos set)" where
  "vertical_moves pf (f, r, c) p [] queue visited = Inr (queue, visited)"
| "vertical_moves pf (f, r, c) p (new_f # fs) queue visited =
     (if new_f \<noteq> f then
        (case cell pf new_f r c of
           Inl e \<Rightarrow> Inl e
         | Inr s \<Rightarrow>
             if s = ''T'' then
               (let new_pos = (new_f, r, c)
                in if new_pos \<notin> visited
                   then vertical_moves pf (f, r, c) p fs
                          (queue @ [(new_pos, p @ [new_pos])]) (insert new_pos visited)
                   else vertical_moves pf (f, r, c) p fs queue visited)
             else vertical_moves pf (f, r, c) p fs queue visited)
      else vertical_moves pf (f, r, c) p fs queue visited)"

definition expand_node ::
  "pathfinder \<Rightarrow> pos \<Rightarrow> pos list \<Rightarrow> (pos \<times> pos list) list \<Rightarrow> pos set
     \<Rightarrow> error + ((pos \<times> pos list) list \<times> pos set)" where
  "expand_node pf current_pos p queue visited =
     (case horizontal_moves pf current_pos p directions queue visited of
        Inl e \<Rightarrow> Inl e
      | Inr (queue1, visited1) \<Rightarrow>
          (case current_pos of (f, r, c) \<Rightarrow>
             (case cell pf f r c of
                Inl e \<Rightarrow> Inl e
              | Inr s \<Rightarrow>
                  if s = ''T''
                  then vertical_moves pf current_pos p [0..floors pf - 1] queue1 visited1
                  else Inr (queue1, visited1))))"

text \<open>The positions whose cell can be read at all: a finite set, which bounds the visited
  set and gives the termination order of the \<open>while\<close> loop.\<close>

definition known :: "pathfinder \<Rightarrow> pos set" where
  "known pf = {(f, r, c). \<exists>s. cell pf f r c = Inr s}"

text \<open>The two kinds of move: a step to a valid (in-bounds, non-wall) cell next to the current
  one on the same floor, and a change of floor between two stair cells at the same row and
  column.\<close>

definition neighbour_step :: "pathfinder \<Rightarrow> pos \<Rightarrow> pos \<Rightarrow> bool" where
  "neighbour_step pf a b =
     (case (a, b) of ((f1, r1, c1), (f2, r2, c2)) \<Rightarrow>
        f1 = f2 \<and> \<bar>r2 - r1\<bar> + \<bar>c2 - c1\<bar> = 1 \<and> is_valid_position pf f2 r2 c2 = Inr True)"

definition stair_step :: "pathfinder \<Rightarrow> pos \<Rightarrow> pos \<Rightarrow> bool" where
  "stair_step pf a b =
     (case (a, b) of ((f1, r1, c1), (f2, r2, c2)) \<Rightarrow>
        f1 \<noteq> f2 \<and> r1 = r2 \<and> c1 = c2 \<and> 0 \<le> f2 \<and> f2 < floors pf
        \<and> cell pf f1 r1 c1 = Inr ''T'' \<and> cell pf f2 r2 c2 = Inr ''T'')"

definition valid_step :: "pathfinder \<Rightarrow> pos \<Rightarrow> pos \<Rightarrow> bool" where
  "valid_step pf a b = (neighbour_step pf a b \<or> stair_step pf a b)"

lemma py_nth_Inr_range: "py_nth xs i = Inr x \<Longrightarrow> - int (length xs) \<le> i \<and> i < int (length xs)"
  by (auto simp: py_nth_def split: if_splits)

lemma cell_InrD:
  "cell pf f r c = Inr s \<Longrightarrow>
   \<exists>fl rw. py_nth (building pf) f = Inr fl \<and> py_nth fl r = Inr rw \<and> py_nth rw c = Inr s"
  by (auto simp: cell_def split: sum.splits)

lemma finite_known: "finite (known pf)"
proof -
  let ?idx = "\<lambda>xs::'a list. {- int (length xs)..<int (length xs)}"
  let ?fl = "\<lambda>f. projr (py_nth (building pf) f)"
  let ?rw = "\<lambda>f r. projr (py_nth (?fl f) r)"
  let ?U = "\<Union>f\<in>?idx (building pf). \<Union>r\<in>?idx (?fl f). (\<lambda>c. (f, r, c)) ` ?idx (?rw f r)"
  have "known pf \<subseteq> ?U"
  proof
    fix x assume "x \<in> known pf"
    then obtain f r c s where x: "x = (f, r, c)" and "cell pf f r c = Inr s"
      by (auto simp: known_def)
    then obtain fl rw where a: "py_nth (building pf) f = Inr fl" "py_nth fl r = Inr rw"
        "py_nth rw c = Inr s"
      by (blast dest: cell_InrD)
    have "f \<in> ?idx (building pf)" using py_nth_Inr_range[OF a(1)] by simp
    moreover have "r \<in> ?idx (?fl f)" using py_nth_Inr_range[OF a(2)] a(1) by simp
    moreover have "c \<in> ?idx (?rw f r)" using py_nth_Inr_range[OF a(3)] a(1,2) by simp
    ultimately show "x \<in> ?U" unfolding x by blast
  qed
  moreover have "finite ?U"
    by blast
  ultimately show ?thesis by (rule finite_subset)
qed

lemma is_valid_known: "is_valid_position pf f r c = Inr True \<Longrightarrow> (f, r, c) \<in> known pf"
  by (auto simp: is_valid_position_def known_def split: if_splits sum.splits)

lemma horizontal_moves_news:
  "horizontal_moves pf cur p ds queue visited = Inr (queue', visited') \<Longrightarrow>
   \<exists>ns. queue' = queue @ map (\<lambda>n. (n, p @ [n])) ns \<and> visited' = visited \<union> set ns
        \<and> distinct ns \<and> set ns \<inter> visited = {}
        \<and> (\<forall>n\<in>set ns. \<exists>d\<in>set ds. n = (fst cur, fst (snd cur) + fst d, snd (snd cur) + snd d)
                \<and> is_valid_position pf (fst n) (fst (snd n)) (snd (snd n)) = Inr True)"
proof (induction pf cur p ds queue visited rule: horizontal_moves.induct)
  case (1 pf f r c p queue visited)
  then show ?case by simp
next
  case (2 pf f r c p dr dc ds queue visited)
  let ?n = "(f, r + dr, c + dc)"
  from "2.prems" obtain ok where ok: "is_valid_position pf f (r + dr) (c + dc) = Inr ok"
    by (auto simp: Let_def split: sum.splits)
  show ?case
  proof (cases "ok \<and> ?n \<notin> visited")
    case True
    with "2.prems" ok have "horizontal_moves pf (f, r, c) p ds (queue @ [(?n, p @ [?n])])
        (insert ?n visited) = Inr (queue', visited')" by (simp add: Let_def)
    from "2.IH"(1)[OF refl refl refl ok True this] obtain ns where
      ns: "queue' = (queue @ [(?n, p @ [?n])]) @ map (\<lambda>n. (n, p @ [n])) ns"
          "visited' = insert ?n visited \<union> set ns" "distinct ns" "set ns \<inter> insert ?n visited = {}"
          "\<forall>n\<in>set ns. \<exists>d\<in>set ds. n = (fst (f, r, c), fst (snd (f, r, c)) + fst d, snd (snd (f, r, c)) + snd d)
                \<and> is_valid_position pf (fst n) (fst (snd n)) (snd (snd n)) = Inr True"
      by blast
    show ?thesis
      apply (rule exI[of _ "?n # ns"])
      using ns True ok by auto
  next
    case False
    with "2.prems" ok have "horizontal_moves pf (f, r, c) p ds queue visited = Inr (queue', visited')"
      by (auto simp: Let_def)
    from "2.IH"(2)[OF refl refl refl ok False this] show ?thesis by auto
  qed
qed

lemma vertical_moves_news:
  "vertical_moves pf cur p fs queue visited = Inr (queue', visited') \<Longrightarrow>
   \<exists>ns. queue' = queue @ map (\<lambda>n. (n, p @ [n])) ns \<and> visited' = visited \<union> set ns
        \<and> distinct ns \<and> set ns \<inter> visited = {}
        \<and> (\<forall>n\<in>set ns. \<exists>nf\<in>set fs. nf \<noteq> fst cur \<and> n = (nf, fst (snd cur), snd (snd cur))
                \<and> cell pf nf (fst (snd cur)) (snd (snd cur)) = Inr ''T'')"
proof (induction pf cur p fs queue visited rule: vertical_moves.induct)
  case (1 pf f r c p queue visited)
  then show ?case by simp
next
  case (2 pf f r c p new_f fs queue visited)
  let ?n = "(new_f, r, c)"
  show ?case
  proof (cases "new_f \<noteq> f")
    case neq: True
    with "2.prems" obtain s where s: "cell pf new_f r c = Inr s"
      by (auto split: sum.splits)
    show ?thesis
    proof (cases "s = ''T''")
      case T: True
      show ?thesis
      proof (cases "?n \<notin> visited")
        case True
        with "2.prems" neq s T have "vertical_moves pf (f, r, c) p fs (queue @ [(?n, p @ [?n])])
          (insert ?n visited) = Inr (queue', visited')" by (simp add: Let_def)
        from "2.IH"(1)[OF neq s T refl True this] obtain ns where
          ns: "queue' = (queue @ [(?n, p @ [?n])]) @ map (\<lambda>n. (n, p @ [n])) ns"
          "visited' = insert ?n visited \<union> set ns" "distinct ns" "set ns \<inter> insert ?n visited = {}"
          "\<forall>n\<in>set ns. \<exists>nf\<in>set fs. nf \<noteq> fst (f, r, c) \<and> n = (nf, fst (snd (f, r, c)), snd (snd (f, r, c)))
                \<and> cell pf nf (fst (snd (f, r, c))) (snd (snd (f, r, c))) = Inr ''T''"
          by blast
        show ?thesis
          apply (rule exI[of _ "?n # ns"])
          using ns True neq s T by auto
      next
        case False
        with "2.prems" neq s T have "vertical_moves pf (f, r, c) p fs queue visited = Inr (queue', visited')"
          by (simp add: Let_def)
        from "2.IH"(2)[OF neq s T refl False this] show ?thesis by auto
      qed
    next
      case False
      with "2.prems" neq s have "vertical_moves pf (f, r, c) p fs queue visited = Inr (queue', visited')"
        by simp
      from "2.IH"(3)[OF neq s False this] show ?thesis by auto
    qed
  next
    case False
    with "2.prems" have "vertical_moves pf (f, r, c) p fs queue visited = Inr (queue', visited')"
      by simp
    from "2.IH"(4)[OF False this] show ?thesis by auto
  qed
qed

lemma expand_node_news:
  assumes "expand_node pf cur p queue visited = Inr (queue', visited')"
  shows "\<exists>ns. queue' = queue @ map (\<lambda>n. (n, p @ [n])) ns \<and> visited' = visited \<union> set ns
        \<and> distinct ns \<and> set ns \<inter> visited = {}
        \<and> (\<forall>n\<in>set ns. valid_step pf cur n)"
proof -
  obtain f r c where cur: "cur = (f, r, c)" by (cases cur) auto
  from assms obtain q1 v1 where h: "horizontal_moves pf cur p directions queue visited = Inr (q1, v1)"
    by (auto simp: expand_node_def split: sum.splits)
  from horizontal_moves_news[OF h] obtain hs where
    hs: "q1 = queue @ map (\<lambda>n. (n, p @ [n])) hs" "v1 = visited \<union> set hs" "distinct hs"
        "set hs \<inter> visited = {}"
        "\<forall>n\<in>set hs. \<exists>d\<in>set directions. n = (fst cur, fst (snd cur) + fst d, snd (snd cur) + snd d)
                \<and> is_valid_position pf (fst n) (fst (snd n)) (snd (snd n)) = Inr True"
    by blast
  have hstep: "\<forall>n\<in>set hs. valid_step pf cur n"
    using hs(5) by (auto simp: valid_step_def neighbour_step_def directions_def cur)
  from assms h obtain s where s: "cell pf f r c = Inr s"
    by (auto simp: expand_node_def cur split: sum.splits)
  show ?thesis
  proof (cases "s = ''T''")
    case True
    with assms h s have v: "vertical_moves pf cur p [0..floors pf - 1] q1 v1 = Inr (queue', visited')"
      by (simp add: expand_node_def cur)
    from vertical_moves_news[OF v] obtain vs where
      vs: "queue' = q1 @ map (\<lambda>n. (n, p @ [n])) vs" "visited' = v1 \<union> set vs" "distinct vs"
        "set vs \<inter> v1 = {}"
        "\<forall>n\<in>set vs. \<exists>nf\<in>set [0..floors pf - 1]. nf \<noteq> fst cur \<and> n = (nf, fst (snd cur), snd (snd cur))
                \<and> cell pf nf (fst (snd cur)) (snd (snd cur)) = Inr ''T''"
      by blast
    have vstep: "\<forall>n\<in>set vs. valid_step pf cur n"
      using vs(5) s True by (auto simp: valid_step_def stair_step_def cur)
    show ?thesis
      apply (rule exI[of _ "hs @ vs"])
      using hs(1-4) vs(1-4) hstep vstep by auto
  next
    case False
    with assms h s have "queue' = q1" "visited' = v1"
      by (simp_all add: expand_node_def cur)
    then show ?thesis using hs(1-4) hstep by auto
  qed
qed

lemma step_known: "valid_step pf a n \<Longrightarrow> n \<in> known pf"
  by (auto simp: valid_step_def neighbour_step_def stair_step_def known_def
           dest: is_valid_known split: prod.splits)

text \<open>The \<open>while queue\<close> loop for one target. It returns the \<open>path_info\<close> appended for
  the target, or \<open>None\<close> when the queue runs empty (the source then only prints a message).\<close>

function bfs_while ::
  "pathfinder \<Rightarrow> nat \<Rightarrow> pos \<Rightarrow> (pos \<times> pos list) list \<Rightarrow> pos set \<Rightarrow> error + path_info option" where
  "bfs_while pf target_idx target [] visited = Inr None"
| "bfs_while pf target_idx target ((current_pos, p) # queue) visited =
     (if current_pos = target
      then Inr (Some \<lparr> target_index = target_idx, target_position = target, path = p,
                       steps = length p, energy_cost = calculate_energy_cost p,
                       energy_saved = None \<rparr>)
      else (case expand_node pf current_pos p queue visited of
              Inl e \<Rightarrow> Inl e
            | Inr (queue', visited') \<Rightarrow> bfs_while pf target_idx target queue' visited'))"
  by pat_completeness auto
termination
proof (relation "measures [\<lambda>(pf, ti, t, q, v). card (known pf - v), \<lambda>(pf, ti, t, q, v). length q]")
  show "wf (measures [\<lambda>(pf, ti, t, q, v). card (known pf - v), \<lambda>(pf, ti, t, q, v). length q])"
    by simp
next
  fix pf :: pathfinder and target_idx :: nat and target current_pos :: pos and p queue visited x2 queue' visited'
  assume "current_pos \<noteq> target" and e: "expand_node pf current_pos p queue visited = Inr x2"
    and x2: "(queue', visited') = x2"
  from expand_node_news[OF e[folded x2]] obtain ns where
    ns: "queue' = queue @ map (\<lambda>n. (n, p @ [n])) ns" "visited' = visited \<union> set ns"
        "set ns \<inter> visited = {}" "\<forall>n\<in>set ns. valid_step pf current_pos n"
    by blast
  show "((pf, target_idx, target, queue', visited'), pf, target_idx, target, (current_pos, p) # queue, visited)
        \<in> measures [\<lambda>(pf, ti, t, q, v). card (known pf - v), \<lambda>(pf, ti, t, q, v). length q]"
  proof (cases ns)
    case Nil
    then show ?thesis using ns by simp
  next
    case (Cons n ns')
    have "n \<in> known pf" "n \<notin> visited" "n \<in> visited'"
      using ns Cons step_known[of pf current_pos n] by auto
    then have "known pf - visited' \<subset> known pf - visited"
      using ns(2) by auto
    then have "card (known pf - visited') < card (known pf - visited)"
      by (intro psubset_card_mono) (auto simp: finite_known)
    then show ?thesis by simp
  qed
qed

fun bfs_targets ::
  "pathfinder \<Rightarrow> pos \<Rightarrow> nat \<Rightarrow> pos list \<Rightarrow> path_info list \<Rightarrow> error + path_info list" where
  "bfs_targets pf src target_idx [] paths_to_all_targets = Inr paths_to_all_targets"
| "bfs_targets pf src target_idx (target # ts) paths_to_all_targets =
     (case bfs_while pf target_idx target [(src, [src])] {src} of
        Inl e \<Rightarrow> Inl e
      | Inr None \<Rightarrow> bfs_targets pf src (Suc target_idx) ts paths_to_all_targets
      | Inr (Some path_info) \<Rightarrow>
          bfs_targets pf src (Suc target_idx) ts (paths_to_all_targets @ [path_info]))"

definition bfs_pathfinding :: "pathfinder \<Rightarrow> error + path_info list" where
  "bfs_pathfinding pf =
     (case source pf of
        None \<Rightarrow> Inr []
      | Some src \<Rightarrow>
          if targets pf = [] then Inr []
          else bfs_targets pf src 0 (targets pf) [])"

text \<open>\<open>ACPathfinder(building_matrix).bfs_pathfinding()\<close>, as the main block runs it.\<close>

definition run_bfs :: "string list list list \<Rightarrow> error + path_info list" where
  "run_bfs building_matrix =
     (case init building_matrix of Inl e \<Rightarrow> Inl e | Inr pf \<Rightarrow> bfs_pathfinding pf)"

subsection \<open>Path simplifier: \<open>optimize_energy_usage\<close>, \<open>_optimize_path_turns\<close>,
  \<open>_can_go_direct\<close>\<close>

text \<open>The obstacle loops of \<open>_can_go_direct\<close>: the first invalid cell returns \<open>False\<close>.\<close>

fun all_valid :: "pathfinder \<Rightarrow> pos list \<Rightarrow> error + bool" where
  "all_valid pf [] = Inr True"
| "all_valid pf ((f, r, c) # ps) =
     (case is_valid_position pf f r c of
        Inl e \<Rightarrow> Inl e
      | Inr ok \<Rightarrow> if \<not> ok then Inr False else all_valid pf ps)"

definition can_go_direct :: "pathfinder \<Rightarrow> pos \<Rightarrow> pos \<Rightarrow> error + bool" where
  "can_go_direct pf pos1 pos2 =
     (case (pos1, pos2) of ((f1, r1, c1), (f2, r2, c2)) \<Rightarrow>
        if f1 \<noteq> f2 then Inr False
        else if r1 \<noteq> r2 \<and> c1 \<noteq> c2 then Inr False
        else if r1 = r2 then
          (let start_c = min c1 c2; end_c = max c1 c2
           in all_valid pf (map (\<lambda>c. (f1, r1, c)) [start_c + 1..end_c - 1]))
        else
          (let start_r = min r1 r2; end_r = max r1 r2
           in all_valid pf (map (\<lambda>r. (f1, r, c1)) [start_r + 1..end_r - 1])))"

text \<open>The loop \<open>for i in range(1, len(path) - 1)\<close>: the third argument is \<open>path[i:]\<close>, so its
  first two elements are \<open>curr_pos\<close> and \<open>next_pos\<close>; \<open>optimized[-1]\<close> is \<open>last optimized\<close>
  (the list is never empty in the loop).\<close>

fun optimize_loop :: "pathfinder \<Rightarrow> pos list \<Rightarrow> pos list \<Rightarrow> error + pos list" where
  "optimize_loop pf optimized (curr_pos # next_pos # rest) =
     (case can_go_direct pf (last optimized) next_pos of
        Inl e \<Rightarrow> Inl e
      | Inr direct \<Rightarrow>
          if direct then optimize_loop pf optimized (next_pos # rest)
          else optimize_loop pf (optimized @ [curr_pos]) (next_pos # rest))"
| "optimize_loop pf optimized rest = Inr optimized"

definition optimize_path_turns :: "pathfinder \<Rightarrow> pos list \<Rightarrow> error + pos list" where
  "optimize_path_turns pf p =
     (if length p \<le> 2 then Inr p
      else (case optimize_loop pf [p ! 0] (tl p) of
              Inl e \<Rightarrow> Inl e
            | Inr optimized \<Rightarrow> Inr (optimized @ [last p])))"

fun optimize_results ::
  "pathfinder \<Rightarrow> path_info list \<Rightarrow> path_info list \<Rightarrow> error + path_info list" where
  "optimize_results pf [] optimized_paths = Inr optimized_paths"
| "optimize_results pf (info # rest) optimized_paths =
     (let original_path = path info; original_energy = energy_cost info
      in case optimize_path_turns pf original_path of
           Inl e \<Rightarrow> Inl e
         | Inr optimized_path \<Rightarrow>
             (let optimized_energy = calculate_energy_cost optimized_path
              in if optimized_energy < original_energy
                 then optimize_results pf rest
                        (optimized_paths @
                           [info \<lparr> path := optimized_path, energy_cost := optimized_energy,
                                   steps := length optimized_path,
                                   energy_saved := Some (original_energy - optimized_energy) \<rparr>])
                 else optimize_results pf rest
                        (optimized_paths @ [info \<lparr> energy_saved := Some 0 \<rparr>])))"

definition optimize_energy_usage :: "pathfinder \<Rightarrow> path_info list \<Rightarrow> error + path_info list" where
  "optimize_energy_usage pf path_info_list = optimize_results pf path_info_list []"

subsection \<open>The scenario grid of the specification\<close>

text \<open>One floor, three rows of three cells: source at \<open>(0,0,0)\<close>, room at \<open>(0,0,2)\<close>, a row of
  walls below, an empty row at the bottom.\<close>

definition scenario_grid :: "string list list list" where
  "scenario_grid = [[[''S'', ''.'', ''R''], [''W'', ''W'', ''W''], [''.'', ''.'', ''.'']]]"

definition scenario_pf :: pathfinder where
  "scenario_pf = \<lparr> building = scenario_grid, floors = 1, rows = 3, cols = 3,
                    source = Some (0, 0, 0), targets = [(0, 0, 2)], stairs = [] \<rparr>"

section \<open>Definitions used to state the properties\<close>

subsection \<open>The cost model in the words of the specification\<close>

text \<open>The direction vector of a step, and the cost the specification assigns to the pair
  \<open>(i - 1, i)\<close> of a path, with the specification's numbers: 0.1 for every step, 3.0 when the
  floor increases, 2.0 when it decreases, 1.0 on the same floor, and 0.5 for \<open>i \<ge> 2\<close> when the
  direction vector differs from that of the step before.\<close>

definition direction :: "pos \<Rightarrow> pos \<Rightarrow> int \<times> int \<times> int" where
  "direction a b = (fst b - fst a, fst (snd b) - fst (snd a), snd (snd b) - snd (snd a))"

definition pair_cost_spec :: "pos list \<Rightarrow> nat \<Rightarrow> rat" where
  "pair_cost_spec p i =
     1 / 10
     + (if fst (p ! i) > fst (p ! (i - 1)) then 3
        else if fst (p ! i) < fst (p ! (i - 1)) then 2
        else 1)
     + (if i \<ge> 2 \<and> direction (p ! (i - 1)) (p ! i) \<noteq> direction (p ! (i - 2)) (p ! (i - 1))
        then 1 / 2 else 0)"


subsection \<open>Positions inside the grid\<close>

definition in_bounds :: "pathfinder \<Rightarrow> pos \<Rightarrow> bool" where
  "in_bounds pf p = (case p of (f, r, c) \<Rightarrow>
     0 \<le> f \<and> f < floors pf \<and> 0 \<le> r \<and> r < rows pf \<and> 0 \<le> c \<and> c < cols pf)"

subsection \<open>Dense paths\<close>

text \<open>A pair of consecutive positions leaves no cell out when it changes floor, is diagonal, or
  joins two cells at most one step apart; a path is dense when all its consecutive pairs are.
  \<open>segments\<close> collects what the loop of \<open>_expand_path\<close> appends after the first element.\<close>

definition dense_pair :: "pos \<Rightarrow> pos \<Rightarrow> bool" where
  "dense_pair a b =
     (case (a, b) of ((f1, r1, c1), (f2, r2, c2)) \<Rightarrow>
        f1 \<noteq> f2 \<or> (r1 \<noteq> r2 \<and> c1 \<noteq> c2) \<or> \<bar>r2 - r1\<bar> + \<bar>c2 - c1\<bar> \<le> 1)"

definition is_dense :: "pos list \<Rightarrow> bool" where
  "is_dense p = successively dense_pair p"

fun segments :: "pos list \<Rightarrow> pos list" where
  "segments (a # b # rest) = expand_segment a b @ segments (b # rest)"
| "segments rest = []"

text \<open>A sparse path with a turn and a floor change, and the dense path it expands to.\<close>

definition sparse_path :: "pos list" where
  "sparse_path = [(0, 0, 0), (0, 0, 3), (0, 2, 3), (1, 2, 3), (1, 2, 1)]"

definition dense_path :: "pos list" where
  "dense_path = [(0, 0, 0), (0, 0, 1), (0, 0, 2), (0, 0, 3), (0, 1, 3), (0, 2, 3),
                 (1, 2, 3), (1, 2, 2), (1, 2, 1)]"

subsection \<open>Consecutive pairs of a path\<close>

definition adjacent :: "pos list \<Rightarrow> (pos \<times> pos) set" where
  "adjacent xs = set (zip xs (tl xs))"

subsection \<open>A building with two floors\<close>

text \<open>Two floors of three rows and four columns. The source is at \<open>(0,0,0)\<close>, a stair joins
  \<open>(0,0,3)\<close> and \<open>(1,0,3)\<close>, the middle row of each floor is a wall. The room at \<open>(0,2,0)\<close> is
  walled off, the room at \<open>(1,0,0)\<close> is reached over the stair.\<close>

definition stairs_grid :: "string list list list" where
  "stairs_grid =
     [[[''S'', ''.'', ''.'', ''T''], [''W'', ''W'', ''W'', ''W''], [''R'', ''.'', ''.'', ''.'']],
      [[''R'', ''.'', ''.'', ''T''], [''W'', ''W'', ''W'', ''W''], [''.'', ''.'', ''.'', ''.'']]]"

definition stairs_pf :: pathfinder where
  "stairs_pf = \<lparr> building = stairs_grid, floors = 2, rows = 3, cols = 4,
                  source = Some (0, 0, 0), targets = [(0, 2, 0), (1, 0, 0)],
                  stairs = [(0, 0, 3), (1, 0, 3)] \<rparr>"

definition router_path :: "pos list" where
  "router_path = [(0, 0, 0), (0, 0, 1), (0, 0, 2), (0, 0, 3), (1, 0, 3), (1, 0, 2), (1, 0, 1), (1, 0, 0)]"

definition simplified_path :: "pos list" where
  "simplified_path = [(0, 0, 0), (0, 0, 3), (1, 0, 3), (1, 0, 0)]"

definition router_result :: path_info where
  "router_result = \<lparr> target_index = 1, target_position = (1, 0, 0), path = router_path,
                      steps = 8, energy_cost = 107 / 10, energy_saved = None \<rparr>"

definition simplified_result :: path_info where
  "simplified_result = \<lparr> target_index = 1, target_position = (1, 0, 0), path = simplified_path,
                          steps = 4, energy_cost = 63 / 10, energy_saved = Some (22 / 5) \<rparr>"

subsection \<open>Invariant of the search loop\<close>

text \<open>Every queue entry carries a path from the source to its position, made of valid steps,
  without repetition, and inside the visited set; \<open>result_ok\<close> is what follows for the
  \<open>path_info\<close> the loop emits for a target.\<close>

definition queue_ok :: "pathfinder \<Rightarrow> pos \<Rightarrow> (pos \<times> pos list) list \<Rightarrow> pos set \<Rightarrow> bool" where
  "queue_ok pf src queue visited =
     (\<forall>(cur, p)\<in>set queue. p \<noteq> [] \<and> hd p = src \<and> last p = cur
        \<and> successively (valid_step pf) p \<and> distinct p \<and> set p \<subseteq> visited)"

definition result_ok :: "pathfinder \<Rightarrow> pos \<Rightarrow> nat \<Rightarrow> pos \<Rightarrow> path_info \<Rightarrow> bool" where
  "result_ok pf src idx target info =
     (target_index info = idx \<and> target_position info = target \<and> path info \<noteq> []
      \<and> hd (path info) = src \<and> last (path info) = target
      \<and> successively (valid_step pf) (path info) \<and> distinct (path info)
      \<and> steps info = length (path info)
      \<and> energy_cost info = calculate_energy_cost (path info) \<and> energy_saved info = None)"

subsection \<open>The states of the search loop\<close>

text \<open>A pathfinder is readable when no read inside its bounds raises. \<open>loop_state n\<close> is the
  state (queue, visited set) in which the \<open>while\<close> loop for a target begins its pass number
  \<open>n\<close>, counted from 0: \<open>None\<close> when the loop has ended before, \<open>Inl\<close> when the pass before
  raised. \<open>found\<close> is what the search for one target adds to the result list.\<close>

definition readable :: "pathfinder \<Rightarrow> bool" where
  "readable pf = (\<forall>f r c. in_bounds pf (f, r, c) \<longrightarrow> (\<exists>s. cell pf f r c = Inr s))"

fun loop_state ::
  "pathfinder \<Rightarrow> pos \<Rightarrow> pos \<Rightarrow> nat \<Rightarrow> (error + ((pos \<times> pos list) list \<times> pos set)) option" where
  "loop_state pf src target 0 = Some (Inr ([(src, [src])], {src}))"
| "loop_state pf src target (Suc n) =
     (case loop_state pf src target n of
        Some (Inr ((current_pos, p) # queue, visited)) \<Rightarrow>
          if current_pos = target then None
          else Some (expand_node pf current_pos p queue visited)
      | _ \<Rightarrow> None)"

definition found :: "pathfinder \<Rightarrow> pos \<Rightarrow> nat \<Rightarrow> pos \<Rightarrow> path_info list" where
  "found pf src idx target =
     (case bfs_while pf idx target [(src, [src])] {src} of
        Inr (Some info) \<Rightarrow> [info]
      | _ \<Rightarrow> [])"

text \<open>The visited set when the search for the walled-off room of the two-floor building
  runs out of queue entries.\<close>

definition exhausted_visited :: "pos set" where
  "exhausted_visited = {(0, 0, 0), (0, 0, 1), (0, 0, 2), (0, 0, 3), (1, 0, 3), (1, 0, 2), (1, 0, 1), (1, 0, 0)}"

text \<open>The pathfinder of the empty building: no source, no target.\<close>

definition empty_pf :: pathfinder where
  "empty_pf = \<lparr> building = [], floors = 0, rows = 0, cols = 0, source = None, targets = [],
                 stairs = [] \<rparr>"

subsection \<open>Accounting for the cost of a path\<close>

text \<open>The cost of the last step of a path ending in \<open>b\<close>: the movement cost of the pair
  \<open>(a, b)\<close>, and the turn cost \<open>b\<close> incurs after the path \<open>xs\<close>. \<open>saving_inv\<close> relates the
  simplified prefix \<open>opt\<close> to the prefix \<open>pre\<close> of the input the loop of \<open>_optimize_path_turns\<close>
  has consumed, \<open>c\<close> being the next input position: both end alike and turn alike, or both end
  alike and \<open>opt\<close> is cheaper by a turn, or \<open>opt\<close> can reach \<open>c\<close> directly and is cheaper by a step.
  \<open>optimized_info\<close> relates a \<open>path_info\<close> to what \<open>optimize_energy_usage\<close> returns for it.\<close>

definition step_cost :: "pos \<Rightarrow> pos \<Rightarrow> rat" where
  "step_cost a b =
     base_pressure + (if fst b > fst a then vertical_up
                      else if fst b < fst a then vertical_down else horizontal)"

definition turn_cost :: "pos list \<Rightarrow> pos \<Rightarrow> rat" where
  "turn_cost xs b =
     (if length xs \<ge> 2 \<and> direction (last xs) b \<noteq> direction (xs ! (length xs - 2)) (last xs)
      then turn else 0)"

definition saving_inv :: "pathfinder \<Rightarrow> pos list \<Rightarrow> pos list \<Rightarrow> pos \<Rightarrow> bool" where
  "saving_inv pf opt pre c =
     ((last opt = last pre \<and> (\<forall>b. turn_cost opt b = turn_cost pre b)
         \<and> calculate_energy_cost opt \<le> calculate_energy_cost pre)
      \<or> (last opt = last pre \<and> calculate_energy_cost opt + 1 / 2 \<le> calculate_energy_cost pre)
      \<or> (can_go_direct pf (last opt) c = Inr True
          \<and> calculate_energy_cost opt + 11 / 10 \<le> calculate_energy_cost pre))"

definition optimized_info :: "pathfinder \<Rightarrow> path_info \<Rightarrow> path_info \<Rightarrow> bool" where
  "optimized_info pf info info' =
     (\<exists>q. optimize_path_turns pf (path info) = Inr q
        \<and> info' = (if calculate_energy_cost q < energy_cost info
                   then info \<lparr> path := q, energy_cost := calculate_energy_cost q,
                               steps := length q,
                               energy_saved := Some (energy_cost info - calculate_energy_cost q) \<rparr>
                   else info \<lparr> energy_saved := Some 0 \<rparr>))"

text \<open>A result with a two-position path, which the simplifier leaves as it is.\<close>

definition short_result :: path_info where
  "short_result = \<lparr> target_index = 0, target_position = (0, 0, 1), path = [(0, 0, 0), (0, 0, 1)],
                     steps = 2, energy_cost = 11 / 10, energy_saved = None \<rparr>"

text \<open>The invariant behind completeness: the source is visited, queued positions are visited
  and pairwise distinct, and every visited position that has left the queue is not the target
  and has all its valid successors visited.\<close>

definition search_inv ::
  "pathfinder \<Rightarrow> pos \<Rightarrow> pos \<Rightarrow> (pos \<times> pos list) list \<Rightarrow> pos set \<Rightarrow> bool" where
  "search_inv pf src target queue visited =
     (src \<in> visited \<and> fst ` set queue \<subseteq> visited \<and> distinct (map fst queue)
      \<and> (\<forall>x\<in>visited. x \<notin> fst ` set queue \<longrightarrow>
             x \<noteq> target \<and> (\<forall>y. valid_step pf x y \<longrightarrow> y \<in> visited)))"

section \<open>Successfully constructed pathfinders\<close>

text \<open>When \<open>__init__\<close> returns, \<open>_find_all_positions\<close> has read every cell inside
  \<open>floors x rows x cols\<close>, so no later read inside these bounds can raise.\<close>

lemma set_grid_positions: "set (grid_positions pf) = {p. in_bounds pf p}"
proof -
  have "(f, r, c) \<in> set (grid_positions pf) \<longleftrightarrow> in_bounds pf (f, r, c)" for f r c
    by (simp add: grid_positions_def in_bounds_def image_iff)
  then show ?thesis by auto
qed

lemma find_all_Inr:
  "find_all pf symbol ps acc = Inr out \<Longrightarrow>
   (\<forall>p\<in>set ps. \<exists>s. cell pf (fst p) (fst (snd p)) (snd (snd p)) = Inr s)
   \<and> out = acc @ filter (\<lambda>p. cell pf (fst p) (fst (snd p)) (snd (snd p)) = Inr symbol) ps"
  by (induction pf symbol ps acc rule: find_all.induct) (auto split: sum.splits if_splits)

lemma find_first_Some:
  "find_first pf symbol ps = Inr (Some p) \<Longrightarrow>
   p \<in> set ps \<and> cell pf (fst p) (fst (snd p)) (snd (snd p)) = Inr symbol"
  by (induction pf symbol ps rule: find_first.induct) (auto split: sum.splits if_splits)

lemma cell_building: "building pf = building pf' \<Longrightarrow> cell pf = cell pf'"
  by (intro ext) (simp add: cell_def)

lemma in_bounds_dims:
  "floors pf = floors pf' \<Longrightarrow> rows pf = rows pf' \<Longrightarrow> cols pf = cols pf' \<Longrightarrow>
   in_bounds pf = in_bounds pf'"
  by (intro ext) (simp add: in_bounds_def)

lemma init_ok:
  assumes "init bm = Inr pf"
  shows init_readable: "in_bounds pf p \<Longrightarrow> \<exists>s. cell pf (fst p) (fst (snd p)) (snd (snd p)) = Inr s"
    and init_source: "source pf = Some src \<Longrightarrow> in_bounds pf src \<and> cell pf (fst src) (fst (snd src)) (snd (snd src)) = Inr ''S''"
    and init_targets: "t \<in> set (targets pf) \<Longrightarrow> in_bounds pf t \<and> cell pf (fst t) (fst (snd t)) (snd (snd t)) = Inr ''R''"
    and init_dims: "building pf = bm" "floors pf = int (length bm)"
proof -
  define pf0 where "pf0 = \<lparr> building = bm, floors = int (length bm),
                  rows = (if bm \<noteq> [] then int (length (bm ! 0)) else 0),
                  cols = (if bm \<noteq> [] \<and> bm ! 0 \<noteq> [] then int (length (bm ! 0 ! 0)) else 0),
                  source = None, targets = [], stairs = [] \<rparr>"
  from assms obtain src' tgs sts where
    a: "find_position pf0 ''S'' = Inr src'" "find_all_positions pf0 ''R'' = Inr tgs"
       "find_all_positions pf0 ''T'' = Inr sts"
       "pf = pf0 \<lparr> source := src', targets := tgs, stairs := sts \<rparr>"
    by (auto simp: init_def Let_def pf0_def[symmetric] split: sum.splits)
  have c: "cell pf = cell pf0" and b: "in_bounds pf = in_bounds pf0"
    using a(4) by (auto intro!: cell_building in_bounds_dims)
  have e: "source pf = src'" "targets pf = tgs"
    using a(4) by simp_all
  note fa = find_all_Inr[OF a(2)[unfolded find_all_positions_def]]
  show "in_bounds pf p \<Longrightarrow> \<exists>s. cell pf (fst p) (fst (snd p)) (snd (snd p)) = Inr s"
    using fa by (simp add: c b set_grid_positions)
  show "source pf = Some src \<Longrightarrow> in_bounds pf src \<and> cell pf (fst src) (fst (snd src)) (snd (snd src)) = Inr ''S''"
    using find_first_Some[of pf0 "''S''" "grid_positions pf0" src] a(1)
    by (simp add: c b e set_grid_positions find_position_def)
  show "t \<in> set (targets pf) \<Longrightarrow> in_bounds pf t \<and> cell pf (fst t) (fst (snd t)) (snd (snd t)) = Inr ''R''"
    using fa by (auto simp: c b e set_grid_positions)
  show "building pf = bm" "floors pf = int (length bm)"
    using a(4) by (simp_all add: pf0_def)
qed


section \<open>The cost model\<close>

lemma is_turn_direction: "is_turn a b c = (direction a b \<noteq> direction b c)"
  by (cases a; cases b; cases c) (simp add: is_turn_def direction_def)

lemma energy_step_spec: "energy_step p i t = t + pair_cost_spec p i"
  by (auto simp: energy_step_def pair_cost_spec_def Let_def is_turn_direction
                 base_pressure_def vertical_up_def vertical_down_def horizontal_def turn_def)

lemma fold_energy_step:
  "fold (energy_step p) is t = t + sum_list (map (pair_cost_spec p) is)"
  by (induction "is" arbitrary: t) (simp_all add: energy_step_spec)



section \<open>The path densifier\<close>

lemma map_add_upto: "map (\<lambda>k. a + k) [0..n] = [a..a + n]"
  by (rule nth_equalityI) auto

lemma map_diff_upto: "map (\<lambda>k. a - k) [0..n] = rev [a - n..a]"
  by (rule nth_equalityI) (auto simp: rev_nth)

lemma py_range_up: "py_range a b 1 = [a..b - 1]"
  using map_add_upto[of a "b - a - 1"] by (simp add: py_range_def)

lemma py_range_down: "py_range a b (- 1) = rev [b + 1..a]"
  using map_diff_upto[of a "a - b - 1"] by (simp add: py_range_def)

lemma successively_upto: "successively (\<lambda>x y. y = x + 1) [i..j]"
proof (induction i j rule: upto.induct)
  case (1 i j)
  show ?case
  proof (cases "i \<le> j")
    case True
    then have "[i..j] = i # [i + 1..j]" by (simp add: upto_rec1)
    moreover have "successively (\<lambda>x y. y = x + 1) [i + 1..j]" using 1 True by simp
    ultimately show ?thesis
      by (cases "i + 1 \<le> j") (simp_all add: successively_Cons upto_rec1[of "i + 1" j])
  next
    case False
    then show ?thesis by simp
  qed
qed

lemma expand_loop_segments: "expand_loop acc p = acc @ segments p"
  by (induction acc p rule: expand_loop.induct) simp_all

lemma expand_path_segments:
  "expand_path (a # b # rest) = a # segments (a # b # rest)"
  by (simp add: expand_path_def expand_loop_segments)

lemma expand_segment_last: "\<exists>xs. expand_segment a b = xs @ [b]"
  by (cases a; cases b) (simp add: expand_segment_def Let_def)

lemma segments_last: "segments (a # b # rest) \<noteq> [] \<and> last (segments (a # b # rest)) = last (b # rest)"
proof (induction rest arbitrary: a b)
  case Nil
  show ?case using expand_segment_last[of a b] by auto
next
  case (Cons c rest)
  from Cons[of b c] show ?case by simp
qed

lemma dense_run_rows: "successively dense_pair (map (\<lambda>r. (f, r, c)) [i..j])"
  unfolding successively_map
  by (rule successively_mono[OF successively_upto]) (auto simp: dense_pair_def)

lemma dense_run_cols: "successively dense_pair (map (\<lambda>c. (f, r, c)) [i..j])"
  unfolding successively_map
  by (rule successively_mono[OF successively_upto]) (auto simp: dense_pair_def)

lemma dense_pair_sym: "dense_pair a b = dense_pair b a"
  by (cases a; cases b) (auto simp: dense_pair_def)

lemma successively_dense_rev: "successively dense_pair (rev xs) = successively dense_pair xs"
proof -
  have "(\<lambda>x y. dense_pair y x) = dense_pair"
    by (intro ext) (rule dense_pair_sym)
  then show ?thesis by (simp only: successively_rev)
qed

lemma dense_run_rows_rev: "successively dense_pair (map (\<lambda>r. (f, r, c)) (rev [i..j]))"
  using dense_run_rows[of f c i j]
  by (simp only: rev_map[symmetric] successively_dense_rev)

lemma dense_run_cols_rev: "successively dense_pair (map (\<lambda>c. (f, r, c)) (rev [i..j]))"
  using dense_run_cols[of f r i j]
  by (simp only: rev_map[symmetric] successively_dense_rev)

lemma upto_split_ends: "i < j \<Longrightarrow> [i..j] = i # [i + 1..j - 1] @ [j]"
  using upto_rec1[of i j] upto_rec2[of "i + 1" j] by simp

lemma dense_segment: "successively dense_pair (a # expand_segment a b)"
proof -
  obtain f1 r1 c1 f2 r2 c2 where a: "a = (f1, r1, c1)" and b: "b = (f2, r2, c2)"
    by (cases a; cases b) auto
  consider (floor) "f1 \<noteq> f2" | (diag) "f1 = f2" "c1 \<noteq> c2" "r1 \<noteq> r2"
    | (same) "f1 = f2" "c1 = c2" "r1 = r2"
    | (rup) "f1 = f2" "c1 = c2" "r1 < r2" | (rdown) "f1 = f2" "c1 = c2" "r2 < r1"
    | (cup) "f1 = f2" "r1 = r2" "c1 < c2" | (cdown) "f1 = f2" "r1 = r2" "c2 < c1"
    by linarith
  then show ?thesis
  proof cases
    case floor
    then show ?thesis by (simp add: a b expand_segment_def dense_pair_def)
  next
    case diag
    then show ?thesis by (simp add: a b expand_segment_def dense_pair_def)
  next
    case same
    then show ?thesis by (simp add: a b expand_segment_def dense_pair_def py_range_down)
  next
    case rup
    then have "a # expand_segment a b = map (\<lambda>r. (f1, r, c1)) [r1..r2]"
      by (simp add: a b expand_segment_def py_range_up upto_split_ends[of r1 r2])
    then show ?thesis by (simp only: dense_run_rows)
  next
    case rdown
    then have "a # expand_segment a b = map (\<lambda>r. (f1, r, c1)) (rev [r2..r1])"
      by (simp add: a b expand_segment_def py_range_down upto_split_ends[of r2 r1])
    then show ?thesis by (simp only: dense_run_rows_rev)
  next
    case cup
    then have "a # expand_segment a b = map (\<lambda>c. (f1, r1, c)) [c1..c2]"
      by (simp add: a b expand_segment_def py_range_up upto_split_ends[of c1 c2])
    then show ?thesis by (simp only: dense_run_cols)
  next
    case cdown
    then have "a # expand_segment a b = map (\<lambda>c. (f1, r1, c)) (rev [c2..c1])"
      by (simp add: a b expand_segment_def py_range_down upto_split_ends[of c2 c1])
    then show ?thesis by (simp only: dense_run_cols_rev)
  qed
qed

lemma successively_join:
  "successively P (xs @ [b]) \<Longrightarrow> successively P (b # ys) \<Longrightarrow> successively P (xs @ b # ys)"
  by (cases xs rule: rev_cases; cases ys) (auto simp: successively_append_iff successively_Cons)

lemma dense_segments: "successively dense_pair (a # segments (a # rest))"
proof (induction rest arbitrary: a)
  case Nil
  show ?case by simp
next
  case (Cons b rest)
  obtain xs where xs: "expand_segment a b = xs @ [b]"
    using expand_segment_last by blast
  have "successively dense_pair ((a # xs) @ [b])"
    using dense_segment[of a b] by (simp add: xs)
  from successively_join[OF this Cons[of b]] show ?case
    by (simp add: xs)
qed

lemma dense_pair_segment: "dense_pair a b \<Longrightarrow> expand_segment a b = [b]"
  by (cases a; cases b) (auto simp: dense_pair_def expand_segment_def py_range_up py_range_down)

lemma segments_dense: "successively dense_pair p \<Longrightarrow> segments p = tl p"
  by (induction p rule: segments.induct) (simp_all add: dense_pair_segment)

lemma expand_path_dense: "is_dense (expand_path p)"
proof (cases p rule: segments.cases)
  case (1 a b rest)
  then show ?thesis
    by (simp only: expand_path_segments is_dense_def dense_segments)
qed (simp_all add: expand_path_def is_dense_def)

lemma expand_path_id: "is_dense p \<Longrightarrow> expand_path p = p"
proof (cases p rule: segments.cases)
  case (1 a b rest)
  assume "is_dense p"
  with 1 show ?thesis
    by (simp add: expand_path_segments is_dense_def segments_dense del: segments.simps)
qed (simp_all add: expand_path_def)

lemma expand_path_ends:
  "p \<noteq> [] \<Longrightarrow> hd (expand_path p) = hd p \<and> last (expand_path p) = last p"
proof (cases p rule: segments.cases)
  case (1 a b rest)
  then show ?thesis
    using segments_last[of a b rest] by (simp add: expand_path_segments del: segments.simps)
qed (simp_all add: expand_path_def)

text \<open>
  Claim C6. \<open>_expand_path\<close> keeps the first and the last element of every non-empty path, it is
  idempotent, and it is the identity on a path that is already dense; its result is dense.
\<close>

theorem expand_path_endpoints_idempotent:
  "(p \<noteq> [] \<longrightarrow> hd (expand_path p) = hd p \<and> last (expand_path p) = last p)
   \<and> expand_path (expand_path p) = expand_path p
   \<and> (is_dense p \<longrightarrow> expand_path p = p)
   \<and> is_dense (expand_path p)"
  using expand_path_ends[of p] expand_path_id[of p] expand_path_id[OF expand_path_dense[of p]]
    expand_path_dense[of p]
  by blast


lemma expand_sparse: "expand_path sparse_path = dense_path"
  by code_simp

lemma dense_dense: "is_dense dense_path"
  by code_simp

theorem expand_path_witness:
  "sparse_path \<noteq> [] \<and> hd (expand_path sparse_path) = hd sparse_path
   \<and> last (expand_path sparse_path) = last sparse_path
   \<and> expand_path (expand_path sparse_path) = expand_path sparse_path
   \<and> is_dense dense_path \<and> expand_path dense_path = dense_path
   \<and> expand_path sparse_path = dense_path \<and> sparse_path \<noteq> dense_path"
  using expand_path_endpoints_idempotent[of sparse_path]
    expand_path_endpoints_idempotent[of dense_path] dense_dense expand_sparse
  by (simp add: sparse_path_def dense_path_def)

section \<open>Evaluation on concrete buildings\<close>

lemma init_scenario: "init scenario_grid = Inr scenario_pf"
  by code_simp

lemma bfs_scenario:
  "bfs_pathfinding scenario_pf =
     Inr [\<lparr> target_index = 0, target_position = (0, 0, 2),
            path = [(0, 0, 0), (0, 0, 1), (0, 0, 2)], steps = 3,
            energy_cost = 11 / 5, energy_saved = None \<rparr>]"
  by code_simp

lemma run_bfs_scenario:
  "run_bfs scenario_grid =
     Inr [\<lparr> target_index = 0, target_position = (0, 0, 2),
            path = [(0, 0, 0), (0, 0, 1), (0, 0, 2)], steps = 3,
            energy_cost = 11 / 5, energy_saved = None \<rparr>]"
  by (simp add: run_bfs_def init_scenario bfs_scenario)

lemma init_stairs: "init stairs_grid = Inr stairs_pf"
  by code_simp

lemma bfs_stairs: "bfs_pathfinding stairs_pf = Inr [router_result]"
  by code_simp

lemma simplify_router_path: "optimize_path_turns stairs_pf router_path = Inr simplified_path"
  by code_simp

lemma optimize_stairs: "optimize_energy_usage stairs_pf [router_result] = Inr [simplified_result]"
  by code_simp

lemma router_path_valid: "distinct router_path \<and> successively (valid_step stairs_pf) router_path"
  by code_simp

lemma direct_stairs: "can_go_direct stairs_pf (0, 0, 0) (0, 0, 3) = Inr True"
  by code_simp

lemma loop_state_stairs:
  "loop_state stairs_pf (0, 0, 0) (0, 2, 0) 8 = Some (Inr ([], exhausted_visited))"
  by code_simp

lemma search_unreachable_stairs:
  "bfs_while stairs_pf 0 (0, 2, 0) [((0, 0, 0), [(0, 0, 0)])] {(0, 0, 0)} = Inr None"
  by code_simp

lemma search_reachable_stairs:
  "bfs_while stairs_pf 1 (1, 0, 0) [((0, 0, 0), [(0, 0, 0)])] {(0, 0, 0)} = Inr (Some router_result)"
  by code_simp

lemma init_empty: "init [] = Inr empty_pf"
  by code_simp

lemma bfs_empty: "bfs_pathfinding empty_pf = Inr []"
  by code_simp

lemma optimize_two_stairs:
  "optimize_energy_usage stairs_pf [router_result, short_result]
     = Inr [simplified_result, short_result \<lparr> energy_saved := Some 0 \<rparr>]"
  by code_simp

lemma simplify_short_path: "optimize_path_turns stairs_pf (path short_result) = Inr (path short_result)"
  by code_simp

lemma costs_stairs:
  "calculate_energy_cost router_path = 107 / 10" "calculate_energy_cost simplified_path = 63 / 10"
  "calculate_energy_cost (path short_result) = 11 / 10"
  by code_simp+

text \<open>
  Claim C5 (as amended). On the one-floor 3x3 scenario grid the search emits exactly one result,
  with path \<open>[(0,0,0), (0,0,1), (0,0,2)]\<close> and \<open>steps = 3\<close> (the number of positions). The path
  has two consecutive pairs, so its energy is \<open>2 * 0.1 + 2 * 1.0 = 2.2\<close>, with no turn.
\<close>

theorem scenario_route:
  "run_bfs scenario_grid =
     Inr [\<lparr> target_index = 0, target_position = (0, 0, 2),
            path = [(0, 0, 0), (0, 0, 1), (0, 0, 2)], steps = 3,
            energy_cost = 2 * base_pressure + 2 * horizontal, energy_saved = None \<rparr>]
   \<and> 2 * base_pressure + 2 * horizontal = 11 / 5"
  by (simp add: run_bfs_scenario base_pressure_def horizontal_def)

text \<open>The energy stated for the scenario, \<open>3 * 0.1 + 3 * 1.0 = 3.3\<close>, is not the energy of the
  emitted result.\<close>

theorem scenario_energy_counterexample:
  "map energy_cost (projr (run_bfs scenario_grid)) \<noteq> [3 * base_pressure + 3 * horizontal]"
  by (simp add: run_bfs_scenario base_pressure_def horizontal_def)

section \<open>The path simplifier\<close>

lemma all_valid_True:
  "all_valid pf ps = Inr True \<Longrightarrow> (f, r, c) \<in> set ps \<Longrightarrow> is_valid_position pf f r c = Inr True"
  by (induction pf ps rule: all_valid.induct) (auto split: sum.splits if_splits)

lemma can_go_direct_True:
  assumes "can_go_direct pf (f1, r1, c1) (f2, r2, c2) = Inr True"
  shows "f1 = f2" "r1 = r2 \<or> c1 = c2"
    "r1 = r2 \<Longrightarrow> min c1 c2 < c \<Longrightarrow> c < max c1 c2 \<Longrightarrow> is_valid_position pf f1 r1 c = Inr True"
    "c1 = c2 \<Longrightarrow> min r1 r2 < r \<Longrightarrow> r < max r1 r2 \<Longrightarrow> is_valid_position pf f1 r c1 = Inr True"
proof -
  show f: "f1 = f2" and rc: "r1 = r2 \<or> c1 = c2"
    using assms by (auto simp: can_go_direct_def split: if_splits)
  show "is_valid_position pf f1 r1 c = Inr True"
    if "r1 = r2" "min c1 c2 < c" "c < max c1 c2"
  proof -
    from assms f that(1)
    have "all_valid pf (map (\<lambda>c. (f1, r1, c)) [min c1 c2 + 1..max c1 c2 - 1]) = Inr True"
      by (simp add: can_go_direct_def Let_def)
    moreover have "(f1, r1, c) \<in> set (map (\<lambda>c. (f1, r1, c)) [min c1 c2 + 1..max c1 c2 - 1])"
      using that(2,3) by simp
    ultimately show ?thesis by (rule all_valid_True)
  qed
  show "is_valid_position pf f1 r c1 = Inr True"
    if "c1 = c2" "min r1 r2 < r" "r < max r1 r2"
  proof -
    from that have "r1 \<noteq> r2" by auto
    with assms f that(1)
    have "all_valid pf (map (\<lambda>r. (f1, r, c1)) [min r1 r2 + 1..max r1 r2 - 1]) = Inr True"
      by (simp add: can_go_direct_def Let_def)
    moreover have "(f1, r, c1) \<in> set (map (\<lambda>r. (f1, r, c1)) [min r1 r2 + 1..max r1 r2 - 1])"
      using that(2,3) by simp
    ultimately show ?thesis by (rule all_valid_True)
  qed
qed

lemma adjacent_successively: "successively P xs = (\<forall>(a, b)\<in>adjacent xs. P a b)"
  by (induction xs rule: induct_list012) (auto simp: adjacent_def)

lemma successively_snoc:
  "xs \<noteq> [] \<Longrightarrow> successively P (xs @ [y]) = (successively P xs \<and> P (last xs) y)"
  by (auto simp: successively_append_iff)

lemma optimize_loop_links:
  "optimize_loop pf opt rest = Inr out \<Longrightarrow> opt \<noteq> [] \<Longrightarrow> rest \<noteq> [] \<Longrightarrow>
   (\<And>a b. P a b \<Longrightarrow> G a b) \<Longrightarrow> (\<And>a b. can_go_direct pf a b = Inr True \<Longrightarrow> G a b) \<Longrightarrow>
   G (last opt) (hd rest) \<Longrightarrow> successively G opt \<Longrightarrow> successively P rest \<Longrightarrow>
   out \<noteq> [] \<and> hd out = hd opt \<and> successively G (out @ [last rest])"
proof (induction pf opt rest rule: optimize_loop.induct)
  case (1 pf optimized curr_pos next_pos rest)
  from "1.prems"(1) obtain direct where d: "can_go_direct pf (last optimized) next_pos = Inr direct"
    by (auto split: sum.splits)
  show ?case
  proof (cases direct)
    case True
    with "1.prems"(1) d have "optimize_loop pf optimized (next_pos # rest) = Inr out" by simp
    from "1.IH"(1)[OF d True this "1.prems"(2) _ "1.prems"(4,5)] "1.prems"(5,7,8) d True
    show ?thesis by simp
  next
    case False
    with "1.prems"(1) d have "optimize_loop pf (optimized @ [curr_pos]) (next_pos # rest) = Inr out"
      by simp
    from "1.IH"(2)[OF d False this _ _ "1.prems"(4,5)] "1.prems"(2,4,6,7,8)
    show ?thesis by (simp add: successively_snoc)
  qed
qed (simp_all add: successively_snoc)

lemma optimize_path_turns_links:
  assumes "optimize_path_turns pf p = Inr q"
  shows "successively (\<lambda>a b. (a, b) \<in> adjacent p \<or> can_go_direct pf a b = Inr True) q"
    (is "successively ?G q")
proof (cases "length p \<le> 2")
  case True
  with assms have "q = p" by (simp add: optimize_path_turns_def)
  then show ?thesis by (auto simp: adjacent_successively)
next
  case False
  then obtain a b rest where p: "p = a # b # rest" "rest \<noteq> []"
    by (cases p; cases "tl p") auto
  from assms False obtain optimized where
    o: "optimize_loop pf [a] (b # rest) = Inr optimized" "q = optimized @ [last p]"
    by (auto simp: optimize_path_turns_def p split: sum.splits)
  have "successively (\<lambda>x y. (x, y) \<in> adjacent p) p"
    by (auto simp: adjacent_successively)
  then have "successively (\<lambda>x y. (x, y) \<in> adjacent p) (b # rest)" "(a, b) \<in> adjacent p"
    by (simp_all add: p)
  from optimize_loop_links[OF o(1), where P="\<lambda>x y. (x, y) \<in> adjacent p" and G="?G"] this
  show ?thesis by (simp add: o(2) p)
qed


lemma adjacent_snoc: "xs \<noteq> [] \<Longrightarrow> adjacent (xs @ [y]) = insert (last xs, y) (adjacent xs)"
  by (induction xs rule: induct_list012) (auto simp: adjacent_def)

lemma adjacent_Cons2: "adjacent (a # b # xs) = insert (a, b) (adjacent (b # xs))"
  by (simp add: adjacent_def)

lemma adjacent_append:
  "xs \<noteq> [] \<Longrightarrow> adjacent (xs @ y # ys) = adjacent xs \<union> insert (last xs, y) (adjacent (y # ys))"
  by (induction xs rule: induct_list012) (auto simp: adjacent_def)

lemma can_go_direct_floor: "can_go_direct pf a b = Inr True \<Longrightarrow> fst a = fst b"
  by (cases a; cases b) (auto dest: can_go_direct_True(1))

lemma optimize_loop_keeps_floor_steps:
  "optimize_loop pf opt R = Inr out \<Longrightarrow> R \<noteq> [] \<Longrightarrow> opt \<noteq> [] \<Longrightarrow> pre \<noteq> [] \<Longrightarrow>
   distinct (pre @ R) \<Longrightarrow>
   (\<forall>(x, y)\<in>adjacent (pre @ R). fst x \<noteq> fst y \<longrightarrow> snd x = snd y) \<Longrightarrow>
   (\<forall>(x, y)\<in>adjacent pre. fst x \<noteq> fst y \<longrightarrow> (x, y) \<in> adjacent opt) \<Longrightarrow>
   (fst (last pre) \<noteq> fst (hd R) \<longrightarrow> last opt = last pre) \<Longrightarrow>
   (last opt = last pre \<or> fst (last opt) = fst (hd R)) \<Longrightarrow>
   (\<forall>(x, y)\<in>adjacent (pre @ R). fst x \<noteq> fst y \<longrightarrow> (x, y) \<in> adjacent (out @ [last R]))"
proof (induction pf opt R arbitrary: pre rule: optimize_loop.induct)
  case (1 pf optimized curr_pos next_pos rest)
  note prems = "1.prems"
  from prems(1) obtain direct where d: "can_go_direct pf (last optimized) next_pos = Inr direct"
    by (auto split: sum.splits)
  have adj: "adjacent (pre @ curr_pos # next_pos # rest)
      = adjacent pre \<union> insert (last pre, curr_pos) (insert (curr_pos, next_pos) (adjacent (next_pos # rest)))"
    using prems(4) by (simp add: adjacent_append adjacent_Cons2)
  have app: "(pre @ [curr_pos]) @ next_pos # rest = pre @ curr_pos # next_pos # rest" by simp
  show ?case
  proof (cases direct)
    case True
    with prems(1) d have call: "optimize_loop pf optimized (next_pos # rest) = Inr out" by simp
    have fl: "fst (last optimized) = fst next_pos"
      using d True by (auto dest: can_go_direct_floor)
    have nochange: "fst (last pre) = fst curr_pos"
    proof (rule ccontr)
      assume c: "fst (last pre) \<noteq> fst curr_pos"
      with prems(8) have "last optimized = last pre" by simp
      with fl c have c2: "fst curr_pos \<noteq> fst next_pos" by simp
      from prems(6) c c2 have "snd (last pre) = snd curr_pos" "snd curr_pos = snd next_pos"
        unfolding adj by auto
      with fl \<open>last optimized = last pre\<close> have "last pre = next_pos"
        by (simp add: prod_eq_iff)
      moreover have "last pre \<in> set pre" using prems(4) by simp
      ultimately show False using prems(5) by auto
    qed
    have same: "fst curr_pos = fst next_pos"
      using prems(9) fl nochange by auto
    have "\<forall>(x, y)\<in>adjacent ((pre @ [curr_pos]) @ next_pos # rest).
            fst x \<noteq> fst y \<longrightarrow> (x, y) \<in> adjacent (out @ [last (next_pos # rest)])"
    proof (rule "1.IH"(1)[OF d True call])
      show "distinct ((pre @ [curr_pos]) @ next_pos # rest)" using prems(5) by simp
      show "\<forall>(x, y)\<in>adjacent ((pre @ [curr_pos]) @ next_pos # rest). fst x \<noteq> fst y \<longrightarrow> snd x = snd y"
        using prems(6) unfolding app .
      show "\<forall>(x, y)\<in>adjacent (pre @ [curr_pos]). fst x \<noteq> fst y \<longrightarrow> (x, y) \<in> adjacent optimized"
        using prems(7) nochange prems(4) by (auto simp: adjacent_snoc)
      show "fst (last (pre @ [curr_pos])) \<noteq> fst (hd (next_pos # rest)) \<longrightarrow>
            last optimized = last (pre @ [curr_pos])"
        using same by simp
      show "last optimized = last (pre @ [curr_pos]) \<or> fst (last optimized) = fst (hd (next_pos # rest))"
        using fl by simp
    qed (use prems in simp_all)
    then show ?thesis unfolding app by simp
  next
    case False
    with prems(1) d have call: "optimize_loop pf (optimized @ [curr_pos]) (next_pos # rest) = Inr out"
      by simp
    have "\<forall>(x, y)\<in>adjacent ((pre @ [curr_pos]) @ next_pos # rest).
            fst x \<noteq> fst y \<longrightarrow> (x, y) \<in> adjacent (out @ [last (next_pos # rest)])"
    proof (rule "1.IH"(2)[OF d False call])
      show "distinct ((pre @ [curr_pos]) @ next_pos # rest)" using prems(5) by simp
      show "\<forall>(x, y)\<in>adjacent ((pre @ [curr_pos]) @ next_pos # rest). fst x \<noteq> fst y \<longrightarrow> snd x = snd y"
        using prems(6) unfolding app .
      show "\<forall>(x, y)\<in>adjacent (pre @ [curr_pos]). fst x \<noteq> fst y \<longrightarrow> (x, y) \<in> adjacent (optimized @ [curr_pos])"
        using prems(7,8) prems(3,4) by (auto simp: adjacent_snoc)
    qed simp_all
    then show ?thesis unfolding app by simp
  qed
qed (auto simp: adjacent_snoc)

lemma valid_step_floor_change: "valid_step pf x y \<Longrightarrow> fst x \<noteq> fst y \<Longrightarrow> snd x = snd y"
  by (cases x; cases y) (auto simp: valid_step_def neighbour_step_def stair_step_def)

lemma optimize_path_turns_keeps_floor_steps:
  assumes "optimize_path_turns pf p = Inr q" "distinct p" "successively (valid_step pf) p"
  shows "\<forall>(x, y)\<in>adjacent p. fst x \<noteq> fst y \<longrightarrow> (x, y) \<in> adjacent q"
proof (cases "length p \<le> 2")
  case True
  with assms have "q = p" by (simp add: optimize_path_turns_def)
  then show ?thesis by auto
next
  case False
  then obtain a b rest where p: "p = a # b # rest" "rest \<noteq> []"
    by (cases p; cases "tl p") auto
  from assms False obtain optimized where
    o: "optimize_loop pf [a] (b # rest) = Inr optimized" "q = optimized @ [last p]"
    by (auto simp: optimize_path_turns_def p split: sum.splits)
  have h: "\<forall>(x, y)\<in>adjacent ([a] @ b # rest). fst x \<noteq> fst y \<longrightarrow> snd x = snd y"
    using assms(3) valid_step_floor_change[of pf]
    by (auto simp: adjacent_successively p)
  have "\<forall>(x, y)\<in>adjacent ([a] @ b # rest).
          fst x \<noteq> fst y \<longrightarrow> (x, y) \<in> adjacent (optimized @ [last (b # rest)])"
    by (rule optimize_loop_keeps_floor_steps[OF o(1) _ _ _ _ h])
       (use assms(2) in \<open>simp_all add: p adjacent_def\<close>)
  then show ?thesis by (simp add: o(2) p)
qed

text \<open>
  Claim C7. \<open>_can_go_direct(a, b)\<close> holds only if \<open>a\<close> and \<open>b\<close> are on the same floor, share the
  row or the column, and every cell strictly between them on that line is valid (in bounds and
  not a wall). Hence every consecutive pair of the path \<open>_optimize_path_turns\<close> returns is a
  consecutive pair of its input or a pair that can be joined directly: no new pair joins two
  floors or runs diagonally. On a path as the router emits it (valid steps, no position twice)
  every floor-change step of the input is still a step of the output.
\<close>

theorem can_go_direct_only_if:
  "(can_go_direct pf (f1, r1, c1) (f2, r2, c2) = Inr True \<longrightarrow>
      f1 = f2 \<and> (r1 = r2 \<or> c1 = c2)
      \<and> (\<forall>c. r1 = r2 \<and> min c1 c2 < c \<and> c < max c1 c2 \<longrightarrow> is_valid_position pf f1 r1 c = Inr True)
      \<and> (\<forall>r. c1 = c2 \<and> min r1 r2 < r \<and> r < max r1 r2 \<longrightarrow> is_valid_position pf f1 r c1 = Inr True))
   \<and> (optimize_path_turns pf p = Inr q \<longrightarrow>
        (\<forall>(a, b)\<in>adjacent q. (a, b) \<in> adjacent p \<or> can_go_direct pf a b = Inr True)
        \<and> (distinct p \<and> successively (valid_step pf) p \<longrightarrow>
            (\<forall>(a, b)\<in>adjacent p. fst a \<noteq> fst b \<longrightarrow> (a, b) \<in> adjacent q)))"
proof (intro conjI impI allI)
  assume d: "can_go_direct pf (f1, r1, c1) (f2, r2, c2) = Inr True"
  show "f1 = f2" "r1 = r2 \<or> c1 = c2"
    using can_go_direct_True(1,2)[OF d] by blast+
  show "is_valid_position pf f1 r1 c = Inr True" if "r1 = r2 \<and> min c1 c2 < c \<and> c < max c1 c2" for c
    using can_go_direct_True(3)[OF d] that by blast
  show "is_valid_position pf f1 r c1 = Inr True" if "c1 = c2 \<and> min r1 r2 < r \<and> r < max r1 r2" for r
    using can_go_direct_True(4)[OF d] that by blast
next
  assume "optimize_path_turns pf p = Inr q"
  from optimize_path_turns_links[OF this]
  show "\<forall>(a, b)\<in>adjacent q. (a, b) \<in> adjacent p \<or> can_go_direct pf a b = Inr True"
    by (simp add: adjacent_successively)
next
  assume "optimize_path_turns pf p = Inr q" "distinct p \<and> successively (valid_step pf) p"
  then show "\<forall>(a, b)\<in>adjacent p. fst a \<noteq> fst b \<longrightarrow> (a, b) \<in> adjacent q"
    using optimize_path_turns_keeps_floor_steps[of pf p q] by blast
qed

theorem can_go_direct_witness:
  "can_go_direct stairs_pf (0, 0, 0) (0, 0, 3) = Inr True
   \<and> is_valid_position stairs_pf 0 0 1 = Inr True \<and> is_valid_position stairs_pf 0 0 2 = Inr True
   \<and> optimize_path_turns stairs_pf router_path = Inr simplified_path
   \<and> distinct router_path \<and> successively (valid_step stairs_pf) router_path
   \<and> ((0, 0, 3), (1, 0, 3)) \<in> adjacent router_path
   \<and> ((0, 0, 3), (1, 0, 3)) \<in> adjacent simplified_path
   \<and> ((0, 0, 0), (0, 0, 3)) \<in> adjacent simplified_path
   \<and> ((0, 0, 0), (0, 0, 3)) \<notin> adjacent router_path"
proof -
  have a: "((0, 0, 3), (1, 0, 3)) \<in> adjacent router_path"
    "((0, 0, 0), (0, 0, 3)) \<in> adjacent simplified_path"
    "((0, 0, 0), (0, 0, 3)) \<notin> adjacent router_path"
    by (simp_all add: adjacent_def router_path_def simplified_path_def)
  from can_go_direct_only_if[of stairs_pf 0 0 0 0 0 3 router_path simplified_path]
    direct_stairs simplify_router_path router_path_valid a
  show ?thesis by fastforce
qed

section \<open>The BFS router: emitted paths\<close>

lemma queue_ok_append:
  "queue_ok pf src (xs @ ys) visited = (queue_ok pf src xs visited \<and> queue_ok pf src ys visited)"
  by (auto simp: queue_ok_def)

lemma queue_ok_expand:
  assumes "queue_ok pf src ((cur, p) # queue) visited"
    and "expand_node pf cur p queue visited = Inr (queue', visited')"
  shows "queue_ok pf src queue' visited'"
proof -
  from expand_node_news[OF assms(2)] obtain ns where
    ns: "queue' = queue @ map (\<lambda>n. (n, p @ [n])) ns" "visited' = visited \<union> set ns"
        "set ns \<inter> visited = {}" "\<forall>n\<in>set ns. valid_step pf cur n"
    by blast
  from assms(1) have p: "p \<noteq> []" "hd p = src" "last p = cur" "successively (valid_step pf) p"
      "distinct p" "set p \<subseteq> visited"
    and old: "queue_ok pf src queue visited"
    by (auto simp: queue_ok_def)
  have "queue_ok pf src queue visited'"
    using old ns(2) by (fastforce simp: queue_ok_def)
  moreover have "queue_ok pf src (map (\<lambda>n. (n, p @ [n])) ns) visited'"
    using p ns(2,3,4) by (auto simp: queue_ok_def successively_snoc)
  ultimately show ?thesis
    unfolding ns(1) by (simp add: queue_ok_append)
qed

lemma bfs_while_sound:
  "bfs_while pf idx target queue visited = Inr (Some info) \<Longrightarrow> queue_ok pf src queue visited \<Longrightarrow>
   result_ok pf src idx target info"
proof (induction pf idx target queue visited rule: bfs_while.induct)
  case (1 pf target_idx target visited)
  then show ?case by simp
next
  case (2 pf target_idx target current_pos p queue visited)
  show ?case
  proof (cases "current_pos = target")
    case True
    with "2.prems" show ?thesis by (auto simp: queue_ok_def result_ok_def)
  next
    case False
    with "2.prems"(1) obtain queue' visited' where
      e: "expand_node pf current_pos p queue visited = Inr (queue', visited')"
      and w: "bfs_while pf target_idx target queue' visited' = Inr (Some info)"
      by (auto split: sum.splits)
    from "2.IH"[OF False e refl w queue_ok_expand[OF "2.prems"(2) e]] show ?thesis .
  qed
qed

lemma queue_ok_start: "queue_ok pf src [(src, [src])] {src}"
  by (simp add: queue_ok_def)

lemma bfs_targets_sound:
  "bfs_targets pf src idx ts acc = Inr rs \<Longrightarrow> r \<in> set rs \<Longrightarrow>
   r \<in> set acc \<or> (\<exists>i<length ts. result_ok pf src (idx + i) (ts ! i) r)"
proof (induction pf src idx ts acc rule: bfs_targets.induct)
  case (1 pf src target_idx paths_to_all_targets)
  then show ?case by simp
next
  case (2 pf src target_idx target ts paths_to_all_targets)
  from "2.prems"(1) obtain res where
    w: "bfs_while pf target_idx target [(src, [src])] {src} = Inr res"
    by (auto split: sum.splits)
  show ?case
  proof (cases res)
    case None
    with "2.prems" w have "bfs_targets pf src (Suc target_idx) ts paths_to_all_targets = Inr rs"
      by simp
    from "2.IH"(1)[OF w None this "2.prems"(2)] show ?thesis
      by auto
  next
    case (Some info)
    with "2.prems" w
    have "bfs_targets pf src (Suc target_idx) ts (paths_to_all_targets @ [info]) = Inr rs"
      by simp
    from "2.IH"(2)[OF w Some this "2.prems"(2)]
    consider "r \<in> set paths_to_all_targets" | "r = info"
      | i where "i < length ts" "result_ok pf src (Suc target_idx + i) (ts ! i) r"
      by auto
    then show ?thesis
    proof cases
      case 2
      have "result_ok pf src (target_idx + 0) ((target # ts) ! 0) r"
        using bfs_while_sound[OF w[unfolded Some] queue_ok_start] 2 by simp
      then show ?thesis by blast
    next
      case 3
      then have "Suc i < length (target # ts)"
        "result_ok pf src (target_idx + Suc i) ((target # ts) ! Suc i) r" by simp_all
      then show ?thesis by blast
    qed simp
  qed
qed

lemma bfs_pathfinding_sound:
  assumes "bfs_pathfinding pf = Inr rs" "r \<in> set rs"
  shows "\<exists>src. source pf = Some src \<and> target_index r < length (targets pf)
          \<and> result_ok pf src (target_index r) (targets pf ! target_index r) r"
proof -
  from assms obtain src where s: "source pf = Some src"
    by (auto simp: bfs_pathfinding_def split: option.splits)
  with assms have "bfs_targets pf src 0 (targets pf) [] = Inr rs"
    by (auto simp: bfs_pathfinding_def split: if_splits)
  from bfs_targets_sound[OF this assms(2)] obtain i where
    "i < length (targets pf)" "result_ok pf src i (targets pf ! i) r" by auto
  moreover from this have "target_index r = i" by (simp add: result_ok_def)
  ultimately show ?thesis using s by auto
qed

text \<open>
  Claim C10. The path of every \<open>path_info\<close> emitted by \<open>bfs_pathfinding\<close> visits no position
  twice.
\<close>

theorem bfs_paths_distinct:
  assumes "bfs_pathfinding pf = Inr rs" and "r \<in> set rs"
  shows "distinct (path r)"
  using bfs_pathfinding_sound[OF assms] by (auto simp: result_ok_def)

theorem bfs_paths_distinct_witness:
  "bfs_pathfinding stairs_pf = Inr [router_result] \<and> router_result \<in> set [router_result]
   \<and> path router_result = router_path \<and> distinct router_path"
  using bfs_paths_distinct[of stairs_pf "[router_result]" router_result] bfs_stairs
  by (simp add: router_result_def)

section \<open>The BFS router: termination and failures\<close>

lemma init_readable': "init bm = Inr pf \<Longrightarrow> readable pf"
  using init_readable[of bm pf] by (auto simp: readable_def)

lemma readableD: "readable pf \<Longrightarrow> in_bounds pf (f, r, c) \<Longrightarrow> \<exists>s. cell pf f r c = Inr s"
  unfolding readable_def by blast

lemma is_valid_Inr: "readable pf \<Longrightarrow> \<exists>ok. is_valid_position pf f r c = Inr ok"
  by (auto simp: is_valid_position_def readable_def in_bounds_def split: sum.splits)
    (metis Inl_Inr_False)

lemma is_valid_in_bounds: "is_valid_position pf f r c = Inr True \<Longrightarrow> in_bounds pf (f, r, c)"
  by (auto simp: is_valid_position_def in_bounds_def split: if_splits)

lemma horizontal_moves_Inr:
  "readable pf \<Longrightarrow> \<exists>res. horizontal_moves pf cur p ds queue visited = Inr res"
proof (induction pf cur p ds queue visited rule: horizontal_moves.induct)
  case (1 pf f r c p queue visited)
  then show ?case by simp
next
  case (2 pf f r c p dr dc ds queue visited)
  from is_valid_Inr[OF "2.prems"] obtain ok where
    ok: "is_valid_position pf f (r + dr) (c + dc) = Inr ok" by blast
  show ?case
  proof (cases "ok \<and> (f, r + dr, c + dc) \<notin> visited")
    case True
    from "2.IH"(1)[OF refl refl refl ok True "2.prems"] True ok show ?thesis
      by (simp add: Let_def)
  next
    case False
    from "2.IH"(2)[OF refl refl refl ok False "2.prems"] False ok show ?thesis
      by (auto simp: Let_def)
  qed
qed

lemma vertical_moves_Inr:
  "readable pf \<Longrightarrow> in_bounds pf cur \<Longrightarrow> set fs \<subseteq> {0..floors pf - 1} \<Longrightarrow>
   \<exists>res. vertical_moves pf cur p fs queue visited = Inr res"
proof (induction pf cur p fs queue visited rule: vertical_moves.induct)
  case (1 pf f r c p queue visited)
  then show ?case by simp
next
  case (2 pf f r c p new_f fs queue visited)
  have "in_bounds pf (new_f, r, c)"
    using "2.prems"(2,3) by (simp add: in_bounds_def)
  from readableD[OF "2.prems"(1) this] obtain s where s: "cell pf new_f r c = Inr s"
    by blast
  have fs: "set fs \<subseteq> {0..floors pf - 1}" using "2.prems"(3) by simp
  show ?case
  proof (cases "new_f \<noteq> f")
    case neq: True
    show ?thesis
    proof (cases "s = ''T''")
      case T: True
      show ?thesis
      proof (cases "(new_f, r, c) \<notin> visited")
        case True
        from "2.IH"(1)[OF neq s T refl True "2.prems"(1,2) fs] neq s T True show ?thesis
          by (simp add: Let_def)
      next
        case False
        from "2.IH"(2)[OF neq s T refl False "2.prems"(1,2) fs] neq s T False show ?thesis
          by (simp add: Let_def)
      qed
    next
      case False
      from "2.IH"(3)[OF neq s False "2.prems"(1,2) fs] neq s False show ?thesis by simp
    qed
  next
    case False
    from "2.IH"(4)[OF False "2.prems"(1,2) fs] False show ?thesis by simp
  qed
qed

lemma expand_node_Inr:
  assumes "readable pf" "in_bounds pf cur"
  shows "\<exists>res. expand_node pf cur p queue visited = Inr res"
proof -
  obtain f r c where cur: "cur = (f, r, c)" by (cases cur) auto
  from horizontal_moves_Inr[OF assms(1)] obtain q1 v1 where
    h: "horizontal_moves pf cur p directions queue visited = Inr (q1, v1)" by fastforce
  from readableD[OF assms(1) assms(2)[unfolded cur]] obtain s where s: "cell pf f r c = Inr s"
    by blast
  from vertical_moves_Inr[OF assms, of "[0..floors pf - 1]" p q1 v1] obtain res where
    v: "vertical_moves pf cur p [0..floors pf - 1] q1 v1 = Inr res" by auto
  show ?thesis
    using h s v by (auto simp: expand_node_def cur)
qed

lemma valid_step_in_bounds: "valid_step pf a b \<Longrightarrow> in_bounds pf a \<Longrightarrow> in_bounds pf b"
  by (cases a; cases b)
     (auto simp: valid_step_def neighbour_step_def stair_step_def in_bounds_def
           dest: is_valid_in_bounds)

lemma expand_node_in_bounds:
  assumes "expand_node pf cur p queue visited = Inr (queue', visited')" "in_bounds pf cur"
    "\<forall>x\<in>set queue. in_bounds pf (fst x)"
  shows "\<forall>x\<in>set queue'. in_bounds pf (fst x)"
proof -
  from expand_node_news[OF assms(1)] obtain ns where
    ns: "queue' = queue @ map (\<lambda>n. (n, p @ [n])) ns" "\<forall>n\<in>set ns. valid_step pf cur n"
    by blast
  show ?thesis
    using assms(2,3) ns(2) unfolding ns(1) by (auto dest: valid_step_in_bounds)
qed

lemma bfs_while_Inr:
  "readable pf \<Longrightarrow> \<forall>x\<in>set queue. in_bounds pf (fst x) \<Longrightarrow>
   \<exists>res. bfs_while pf idx target queue visited = Inr res"
proof (induction pf idx target queue visited rule: bfs_while.induct)
  case (1 pf target_idx target visited)
  then show ?case by simp
next
  case (2 pf target_idx target current_pos p queue visited)
  show ?case
  proof (cases "current_pos = target")
    case True
    then show ?thesis by simp
  next
    case False
    from expand_node_Inr[OF "2.prems"(1), of current_pos p queue visited] "2.prems"(2)
    obtain queue' visited' where
      e: "expand_node pf current_pos p queue visited = Inr (queue', visited')" by fastforce
    have "\<forall>x\<in>set queue'. in_bounds pf (fst x)"
      using expand_node_in_bounds[OF e] "2.prems"(2) by simp
    from "2.IH"[OF False e refl "2.prems"(1) this] False e show ?thesis by simp
  qed
qed


lemma loop_state_SucD:
  assumes "loop_state pf src target (Suc n) = Some res"
  shows "\<exists>cur p queue visited. loop_state pf src target n = Some (Inr ((cur, p) # queue, visited))
           \<and> cur \<noteq> target \<and> res = expand_node pf cur p queue visited"
  using assms by (auto split: option.splits sum.splits list.splits prod.splits if_splits)

lemma finite_in_bounds: "finite {p. in_bounds pf p}"
  and card_in_bounds: "card {p. in_bounds pf p} = nat (floors pf) * nat (rows pf) * nat (cols pf)"
proof -
  have "{p. in_bounds pf p} = {0..<floors pf} \<times> {0..<rows pf} \<times> {0..<cols pf}"
    by (auto simp: in_bounds_def)
  then show "finite {p. in_bounds pf p}"
    "card {p. in_bounds pf p} = nat (floors pf) * nat (rows pf) * nat (cols pf)"
    by (simp_all add: card_cartesian_product)
qed

lemma card_in_bounds_nat:
  "in_bounds pf src \<Longrightarrow> card {p. in_bounds pf p} = nat (floors pf * rows pf * cols pf)"
proof -
  assume "in_bounds pf src"
  then have "0 \<le> floors pf" "0 \<le> rows pf" "0 \<le> cols pf"
    by (cases src; simp add: in_bounds_def)+
  then have "nat (floors pf * rows pf * cols pf) = nat (floors pf) * nat (rows pf) * nat (cols pf)"
    by (simp add: nat_mult_distrib)
  then show ?thesis by (simp only: card_in_bounds)
qed

lemma loop_state_inv:
  "loop_state pf src target n = Some (Inr (queue, visited)) \<Longrightarrow> in_bounds pf src \<Longrightarrow>
   n + length queue = card visited \<and> distinct (map fst queue) \<and> fst ` set queue \<subseteq> visited
   \<and> visited \<subseteq> {p. in_bounds pf p}"
proof (induction n arbitrary: queue visited)
  case 0
  then show ?case by auto
next
  case (Suc n)
  from loop_state_SucD[OF Suc.prems(1)] obtain cur p q0 v0 where
    st: "loop_state pf src target n = Some (Inr ((cur, p) # q0, v0))"
    and e: "expand_node pf cur p q0 v0 = Inr (queue, visited)"
    by metis
  from Suc.IH[OF st Suc.prems(2)] have
    ih: "n + Suc (length q0) = card v0" "cur \<notin> fst ` set q0" "distinct (map fst q0)"
        "cur \<in> v0" "fst ` set q0 \<subseteq> v0" "v0 \<subseteq> {p. in_bounds pf p}"
    by auto
  from expand_node_news[OF e] obtain ns where
    ns: "queue = q0 @ map (\<lambda>n. (n, p @ [n])) ns" "visited = v0 \<union> set ns" "distinct ns"
        "set ns \<inter> v0 = {}" "\<forall>n\<in>set ns. valid_step pf cur n"
    by blast
  have fin: "finite v0"
    using ih(6) finite_in_bounds by (rule finite_subset)
  have "card visited = card v0 + length ns"
    using fin ns(3,4) by (simp add: ns(2) card_Un_disjoint distinct_card Int_commute)
  moreover have "map fst queue = map fst q0 @ ns"
    by (simp add: ns(1) comp_def)
  moreover have "set ns \<subseteq> {p. in_bounds pf p}"
    using ns(5) ih(4,6) by (auto dest: valid_step_in_bounds)
  ultimately show ?case
    using ih ns(2,3,4) by (auto simp: ns(1))
qed

lemma loop_state_result:
  "loop_state pf src target n = Some (Inr (queue, visited)) \<Longrightarrow>
   bfs_while pf idx target queue visited = bfs_while pf idx target [(src, [src])] {src}"
proof (induction n arbitrary: queue visited)
  case 0
  then show ?case by simp
next
  case (Suc n)
  from loop_state_SucD[OF Suc.prems] obtain cur p q0 v0 where
    st: "loop_state pf src target n = Some (Inr ((cur, p) # q0, v0))" and "cur \<noteq> target"
    and e: "expand_node pf cur p q0 v0 = Inr (queue, visited)"
    by metis
  then have "bfs_while pf idx target ((cur, p) # q0) v0 = bfs_while pf idx target queue visited"
    by simp
  with Suc.IH[OF st] show ?case by simp
qed

lemma loop_state_no_error:
  assumes "readable pf" "in_bounds pf src"
  shows "loop_state pf src target n \<noteq> Some (Inl e)"
proof (cases n)
  case 0
  then show ?thesis by simp
next
  case (Suc m)
  show ?thesis
  proof
    assume "loop_state pf src target n = Some (Inl e)"
    from loop_state_SucD[OF this[unfolded Suc]] obtain cur p q0 v0 where
      st: "loop_state pf src target m = Some (Inr ((cur, p) # q0, v0))"
      and e: "expand_node pf cur p q0 v0 = Inl e"
      by metis
    from loop_state_inv[OF st assms(2)] have "in_bounds pf cur" by auto
    from expand_node_Inr[OF assms(1) this, of p q0 v0] e show False by simp
  qed
qed

lemma loop_state_bound:
  assumes "readable pf" "in_bounds pf src"
  shows "loop_state pf src target (Suc (nat (floors pf * rows pf * cols pf))) = None"
proof (rule ccontr)
  let ?N = "nat (floors pf * rows pf * cols pf)"
  assume "loop_state pf src target (Suc ?N) \<noteq> None"
  then obtain res where r: "loop_state pf src target (Suc ?N) = Some res" by auto
  with loop_state_no_error[OF assms, of target "Suc ?N"] obtain queue visited where
    "res = Inr (queue, visited)" by (cases res) (auto simp del: loop_state.simps)
  from loop_state_inv[OF r[unfolded this] assms(2)]
  have "Suc ?N \<le> card visited" "visited \<subseteq> {p. in_bounds pf p}" by auto
  moreover from this(2) have "card visited \<le> card {p. in_bounds pf p}"
    by (intro card_mono finite_in_bounds)
  ultimately show False
    using card_in_bounds_nat[OF assms(2)] by simp
qed

text \<open>
  Claim C9. For a constructed pathfinder with a source, the search loop for any target returns
  (a result or \<open>None\<close>, never an error). At the start of pass \<open>n\<close> the number of queue
  insertions so far, \<open>n + len(queue)\<close>, equals the size of the visited set: every position was
  enqueued exactly once, the queue holds no position twice, and the visited set is bounded by
  \<open>floors * rows * cols\<close>. Hence the loop makes at most \<open>floors * rows * cols\<close> passes.
\<close>

theorem bfs_loop_terminates:
  assumes "init bm = Inr pf" and "source pf = Some src"
  shows "(\<exists>res. bfs_while pf idx target [(src, [src])] {src} = Inr res)
     \<and> (\<forall>n queue visited. loop_state pf src target n = Some (Inr (queue, visited)) \<longrightarrow>
           n + length queue = card visited \<and> distinct (map fst queue)
           \<and> card visited \<le> nat (floors pf * rows pf * cols pf)
           \<and> bfs_while pf idx target queue visited = bfs_while pf idx target [(src, [src])] {src})
     \<and> (\<forall>n e. loop_state pf src target n \<noteq> Some (Inl e))
     \<and> loop_state pf src target (Suc (nat (floors pf * rows pf * cols pf))) = None"
proof -
  have r: "readable pf" using assms(1) by (rule init_readable')
  have b: "in_bounds pf src" using init_source[OF assms] by simp
  have "\<exists>res. bfs_while pf idx target [(src, [src])] {src} = Inr res"
    using bfs_while_Inr[OF r, of "[(src, [src])]"] b by simp
  moreover have "n + length queue = card visited \<and> distinct (map fst queue)
           \<and> card visited \<le> nat (floors pf * rows pf * cols pf)
           \<and> bfs_while pf idx target queue visited = bfs_while pf idx target [(src, [src])] {src}"
    if st: "loop_state pf src target n = Some (Inr (queue, visited))" for n queue visited
  proof -
    from loop_state_inv[OF st b] have i: "n + length queue = card visited"
      "distinct (map fst queue)" "visited \<subseteq> {p. in_bounds pf p}" by auto
    from i(3) have "card visited \<le> card {p. in_bounds pf p}"
      by (intro card_mono finite_in_bounds)
    with i(1,2) loop_state_result[OF st] card_in_bounds_nat[OF b] show ?thesis by simp
  qed
  ultimately show ?thesis
    using loop_state_no_error[OF r b] loop_state_bound[OF r b] by blast
qed


lemma card_exhausted_visited: "card exhausted_visited = 8"
  by (simp add: exhausted_visited_def)

theorem bfs_loop_terminates_witness:
  "init stairs_grid = Inr stairs_pf \<and> source stairs_pf = Some (0, 0, 0)
   \<and> bfs_while stairs_pf 0 (0, 2, 0) [((0, 0, 0), [(0, 0, 0)])] {(0, 0, 0)} = Inr None
   \<and> loop_state stairs_pf (0, 0, 0) (0, 2, 0) 8 = Some (Inr ([], exhausted_visited))
   \<and> 8 + length ([] :: (pos \<times> pos list) list) = card exhausted_visited
   \<and> card exhausted_visited \<le> nat (floors stairs_pf * rows stairs_pf * cols stairs_pf)
   \<and> loop_state stairs_pf (0, 0, 0) (0, 2, 0)
        (Suc (nat (floors stairs_pf * rows stairs_pf * cols stairs_pf))) = None"
proof -
  have s: "source stairs_pf = Some (0, 0, 0)" by (simp add: stairs_pf_def)
  have d: "nat (floors stairs_pf * rows stairs_pf * cols stairs_pf) = 24"
    by (simp add: stairs_pf_def)
  from bfs_loop_terminates[OF init_stairs s, of 0 "(0, 2, 0)"] loop_state_stairs
    search_unreachable_stairs init_stairs s card_exhausted_visited
  show ?thesis by (simp add: d del: loop_state.simps bfs_while.simps)
qed



lemma bfs_targets_exact:
  "(\<forall>i<length ts. \<exists>res. bfs_while pf (idx + i) (ts ! i) [(src, [src])] {src} = Inr res) \<Longrightarrow>
   bfs_targets pf src idx ts acc =
     Inr (acc @ concat (map (\<lambda>i. found pf src (idx + i) (ts ! i)) [0..<length ts]))"
proof (induction ts arbitrary: idx acc)
  case Nil
  then show ?case by simp
next
  case (Cons t ts)
  from Cons.prems[rule_format, of 0] obtain res where
    r: "bfs_while pf idx t [(src, [src])] {src} = Inr res"
    by (auto simp del: bfs_while.simps)
  have "\<forall>i<length ts. \<exists>res. bfs_while pf (Suc idx + i) (ts ! i) [(src, [src])] {src} = Inr res"
  proof (intro allI impI)
    fix i assume "i < length ts"
    with Cons.prems[rule_format, of "Suc i"]
    show "\<exists>res. bfs_while pf (Suc idx + i) (ts ! i) [(src, [src])] {src} = Inr res"
      by (simp del: bfs_while.simps)
  qed
  note ih = Cons.IH[OF this]
  have u: "[0..<Suc (length ts)] = 0 # map Suc [0..<length ts]"
    unfolding map_Suc_upt by (rule upt_conv_Cons) simp
  have m: "map (\<lambda>i. found pf src (idx + i) ((t # ts) ! i)) [0..<length (t # ts)]
        = found pf src idx t # map (\<lambda>i. found pf src (Suc idx + i) (ts ! i)) [0..<length ts]"
    by (simp add: u comp_def del: upt_Suc)
  show ?case
    unfolding m using r ih
    by (cases res) (simp_all add: found_def del: bfs_while.simps)
qed

lemma successively_rtranclp:
  "successively R p \<Longrightarrow> p \<noteq> [] \<Longrightarrow> R\<^sup>*\<^sup>* (hd p) (last p)"
proof (induction p rule: induct_list012)
  case (3 x y zs)
  then have "R x y" "R\<^sup>*\<^sup>* y (last (y # zs))" by auto
  then show ?case by simp
qed simp_all

lemma found_reachable:
  assumes "bfs_while pf idx target [(src, [src])] {src} = Inr (Some info)"
  shows "(valid_step pf)\<^sup>*\<^sup>* src target"
  using bfs_while_sound[OF assms queue_ok_start] successively_rtranclp[of "valid_step pf" "path info"]
  by (simp add: result_ok_def)

lemma found_index: "r \<in> set (found pf src idx target) \<Longrightarrow> target_index r = idx"
  using bfs_while_sound[where pf=pf and idx=idx and target=target and info=r and src=src,
      OF _ queue_ok_start]
  by (auto simp: found_def result_ok_def split: sum.splits option.splits)

text \<open>Completeness of the search: what a step reaches is visited, so a search that exhausts
  its queue has visited everything reachable.\<close>

lemma horizontal_moves_complete:
  "horizontal_moves pf cur p ds queue visited = Inr (queue', visited') \<Longrightarrow>
   visited \<subseteq> visited' \<and>
   (\<forall>d\<in>set ds. is_valid_position pf (fst cur) (fst (snd cur) + fst d) (snd (snd cur) + snd d) = Inr True
       \<longrightarrow> (fst cur, fst (snd cur) + fst d, snd (snd cur) + snd d) \<in> visited')"
proof (induction pf cur p ds queue visited rule: horizontal_moves.induct)
  case (1 pf f r c p queue visited)
  then show ?case by simp
next
  case (2 pf f r c p dr dc ds queue visited)
  let ?n = "(f, r + dr, c + dc)"
  from "2.prems" obtain ok where ok: "is_valid_position pf f (r + dr) (c + dc) = Inr ok"
    by (auto simp: Let_def split: sum.splits)
  show ?case
  proof (cases "ok \<and> ?n \<notin> visited")
    case True
    with "2.prems" ok have "horizontal_moves pf (f, r, c) p ds (queue @ [(?n, p @ [?n])])
        (insert ?n visited) = Inr (queue', visited')" by (simp add: Let_def)
    from "2.IH"(1)[OF refl refl refl ok True this] show ?thesis by auto
  next
    case False
    with "2.prems" ok have "horizontal_moves pf (f, r, c) p ds queue visited = Inr (queue', visited')"
      by (auto simp: Let_def)
    from "2.IH"(2)[OF refl refl refl ok False this] False ok show ?thesis by auto
  qed
qed

lemma vertical_moves_complete:
  "vertical_moves pf cur p fs queue visited = Inr (queue', visited') \<Longrightarrow>
   visited \<subseteq> visited' \<and>
   (\<forall>nf\<in>set fs. nf \<noteq> fst cur \<and> cell pf nf (fst (snd cur)) (snd (snd cur)) = Inr ''T''
       \<longrightarrow> (nf, fst (snd cur), snd (snd cur)) \<in> visited')"
proof (induction pf cur p fs queue visited rule: vertical_moves.induct)
  case (1 pf f r c p queue visited)
  then show ?case by simp
next
  case (2 pf f r c p new_f fs queue visited)
  let ?n = "(new_f, r, c)"
  show ?case
  proof (cases "new_f \<noteq> f")
    case neq: True
    with "2.prems" obtain s where s: "cell pf new_f r c = Inr s"
      by (auto split: sum.splits)
    show ?thesis
    proof (cases "s = ''T''")
      case T: True
      show ?thesis
      proof (cases "?n \<notin> visited")
        case True
        with "2.prems" neq s T have "vertical_moves pf (f, r, c) p fs (queue @ [(?n, p @ [?n])])
          (insert ?n visited) = Inr (queue', visited')" by (simp add: Let_def)
        from "2.IH"(1)[OF neq s T refl True this] show ?thesis by auto
      next
        case False
        with "2.prems" neq s T have "vertical_moves pf (f, r, c) p fs queue visited = Inr (queue', visited')"
          by (simp add: Let_def)
        from "2.IH"(2)[OF neq s T refl False this] False show ?thesis by auto
      qed
    next
      case False
      with "2.prems" neq s have "vertical_moves pf (f, r, c) p fs queue visited = Inr (queue', visited')"
        by simp
      from "2.IH"(3)[OF neq s False this] s False show ?thesis by auto
    qed
  next
    case False
    with "2.prems" have "vertical_moves pf (f, r, c) p fs queue visited = Inr (queue', visited')"
      by simp
    from "2.IH"(4)[OF False this] False show ?thesis by auto
  qed
qed

lemma expand_node_complete:
  assumes "expand_node pf cur p queue visited = Inr (queue', visited')" "valid_step pf cur n"
  shows "n \<in> visited'"
proof -
  obtain f r c where cur: "cur = (f, r, c)" by (cases cur) auto
  obtain f2 r2 c2 where n: "n = (f2, r2, c2)" by (cases n) auto
  from assms(1) obtain q1 v1 where h: "horizontal_moves pf cur p directions queue visited = Inr (q1, v1)"
    by (auto simp: expand_node_def split: sum.splits)
  from assms(1) h obtain s where s: "cell pf f r c = Inr s"
    by (auto simp: expand_node_def cur split: sum.splits)
  have sub: "v1 \<subseteq> visited'"
  proof (cases "s = ''T''")
    case True
    with assms(1) h s have "vertical_moves pf cur p [0..floors pf - 1] q1 v1 = Inr (queue', visited')"
      by (simp add: expand_node_def cur)
    from vertical_moves_complete[OF this] show ?thesis by simp
  next
    case False
    with assms(1) h s show ?thesis by (simp add: expand_node_def cur)
  qed
  from assms(2) consider (nb) "neighbour_step pf cur n" | (st) "stair_step pf cur n"
    by (auto simp: valid_step_def)
  then show ?thesis
  proof cases
    case nb
    then have e: "f2 = f" "\<bar>r2 - r\<bar> + \<bar>c2 - c\<bar> = 1" "is_valid_position pf f2 r2 c2 = Inr True"
      by (simp_all add: neighbour_step_def cur n)
    from e(2) have "(r2 - r, c2 - c) \<in> set directions"
      by (auto simp: directions_def)
    with horizontal_moves_complete[OF h] e(1,3) have "n \<in> v1"
      by (fastforce simp: cur n)
    with sub show ?thesis by auto
  next
    case st
    then have e: "f2 \<noteq> f" "r2 = r" "c2 = c" "0 \<le> f2" "f2 < floors pf" "s = ''T''"
      "cell pf f2 r c = Inr ''T''"
      using s by (simp_all add: stair_step_def cur n)
    with assms(1) h s have "vertical_moves pf cur p [0..floors pf - 1] q1 v1 = Inr (queue', visited')"
      by (simp add: expand_node_def cur)
    from vertical_moves_complete[OF this] e show ?thesis
      by (auto simp: cur n)
  qed
qed


lemma search_inv_start: "search_inv pf src target [(src, [src])] {src}"
  by (simp add: search_inv_def)

lemma search_inv_expand:
  assumes "search_inv pf src target ((cur, p) # queue) visited" "cur \<noteq> target"
    and e: "expand_node pf cur p queue visited = Inr (queue', visited')"
  shows "search_inv pf src target queue' visited'"
proof -
  from expand_node_news[OF e] obtain ns where
    ns: "queue' = queue @ map (\<lambda>n. (n, p @ [n])) ns" "visited' = visited \<union> set ns"
        "distinct ns" "set ns \<inter> visited = {}"
    by blast
  from assms(1) have i: "src \<in> visited" "cur \<in> visited" "fst ` set queue \<subseteq> visited"
      "cur \<notin> fst ` set queue" "distinct (map fst queue)"
    and processed: "\<And>x. x \<in> visited \<Longrightarrow> x \<noteq> cur \<Longrightarrow> x \<notin> fst ` set queue \<Longrightarrow>
             x \<noteq> target \<and> (\<forall>y. valid_step pf x y \<longrightarrow> y \<in> visited)"
    by (auto simp: search_inv_def)
  have f: "fst ` set queue' = fst ` set queue \<union> set ns"
    by (auto simp: ns(1) image_Un image_image)
  have m: "map fst queue' = map fst queue @ ns"
    by (simp add: ns(1) comp_def)
  have p: "x \<noteq> target \<and> (\<forall>y. valid_step pf x y \<longrightarrow> y \<in> visited')"
    if x: "x \<in> visited'" "x \<notin> fst ` set queue'" for x
  proof (cases "x = cur")
    case True
    with assms(2) expand_node_complete[OF e] show ?thesis by blast
  next
    case False
    from x have "x \<in> visited" "x \<notin> fst ` set queue" by (auto simp: f ns(2))
    from processed[OF this(1) False this(2)] show ?thesis by (auto simp: ns(2))
  qed
  have d: "distinct (map fst queue')"
    unfolding m using i(3,5) ns(3,4) by auto
  have s: "src \<in> visited'" using i(1) by (simp add: ns(2))
  have q: "fst ` set queue' \<subseteq> visited'" using i(3) by (auto simp: f ns(2))
  from s q d p show ?thesis
    unfolding search_inv_def by blast
qed

lemma bfs_while_complete:
  "bfs_while pf idx target queue visited = Inr None \<Longrightarrow> search_inv pf src target queue visited \<Longrightarrow>
   \<not> (valid_step pf)\<^sup>*\<^sup>* src target"
proof (induction pf idx target queue visited rule: bfs_while.induct)
  case (1 pf target_idx target visited)
  then have s: "src \<in> visited"
    and c: "\<And>x y. x \<in> visited \<Longrightarrow> valid_step pf x y \<Longrightarrow> y \<in> visited"
    and t: "target \<notin> visited"
    by (auto simp: search_inv_def)
  show ?case
  proof
    assume "(valid_step pf)\<^sup>*\<^sup>* src target"
    then have "target \<in> visited"
      by (induction rule: rtranclp_induct) (auto intro: s c)
    with t show False by simp
  qed
next
  case (2 pf target_idx target current_pos p queue visited)
  from "2.prems"(1) have neq: "current_pos \<noteq> target"
    by (auto split: if_splits)
  with "2.prems"(1) obtain queue' visited' where
    e: "expand_node pf current_pos p queue visited = Inr (queue', visited')"
    and w: "bfs_while pf target_idx target queue' visited' = Inr None"
    by (auto split: sum.splits)
  from "2.IH"[OF neq e refl w search_inv_expand[OF "2.prems"(2) neq e]] show ?case .
qed

lemma search_None_iff:
  assumes "bfs_while pf idx target [(src, [src])] {src} = Inr res"
  shows "res = None \<longleftrightarrow> \<not> (valid_step pf)\<^sup>*\<^sup>* src target"
proof
  assume "res = None"
  with assms bfs_while_complete[OF _ search_inv_start] show "\<not> (valid_step pf)\<^sup>*\<^sup>* src target"
    by blast
next
  assume n: "\<not> (valid_step pf)\<^sup>*\<^sup>* src target"
  show "res = None"
  proof (cases res)
    case (Some info)
    with assms found_reachable n show ?thesis by blast
  qed simp
qed

lemma bfs_targets_searches:
  "bfs_targets pf src idx ts acc = Inr rs \<Longrightarrow> i < length ts \<Longrightarrow>
   \<exists>res. bfs_while pf (idx + i) (ts ! i) [(src, [src])] {src} = Inr res"
proof (induction pf src idx ts acc arbitrary: i rule: bfs_targets.induct)
  case (1 pf src target_idx paths_to_all_targets)
  then show ?case by simp
next
  case (2 pf src target_idx target ts paths_to_all_targets)
  from "2.prems"(1) obtain res where
    w: "bfs_while pf target_idx target [(src, [src])] {src} = Inr res"
    by (auto simp del: bfs_while.simps split: sum.splits)
  show ?case
  proof (cases i)
    case 0
    with w show ?thesis by (simp del: bfs_while.simps)
  next
    case (Suc j)
    with "2.prems"(2) have j: "j < length ts" by simp
    have "\<exists>res. bfs_while pf (Suc target_idx + j) (ts ! j) [(src, [src])] {src} = Inr res"
    proof (cases res)
      case None
      with "2.prems"(1) w have "bfs_targets pf src (Suc target_idx) ts paths_to_all_targets = Inr rs"
        by (simp del: bfs_while.simps)
      from "2.IH"(1)[OF w None this j] show ?thesis .
    next
      case (Some info)
      with "2.prems"(1) w
      have "bfs_targets pf src (Suc target_idx) ts (paths_to_all_targets @ [info]) = Inr rs"
        by (simp del: bfs_while.simps)
      from "2.IH"(2)[OF w Some this j] show ?thesis .
    qed
    then show ?thesis by (simp add: Suc del: bfs_while.simps)
  qed
qed

lemma bfs_pathfinding_complete:
  assumes "bfs_pathfinding pf = Inr rs" "source pf = Some src" "i < length (targets pf)"
    "(valid_step pf)\<^sup>*\<^sup>* src (targets pf ! i)"
  shows "\<exists>r\<in>set rs. target_index r = i"
proof -
  from assms(1,2,3) have b: "bfs_targets pf src 0 (targets pf) [] = Inr rs"
    by (auto simp: bfs_pathfinding_def split: if_splits)
  have all: "\<forall>j<length (targets pf). \<exists>res. bfs_while pf (0 + j) (targets pf ! j) [(src, [src])] {src} = Inr res"
    using bfs_targets_searches[OF b] by blast
  from bfs_targets_exact[OF all, of "[]"] b
  have rs: "rs = concat (map (\<lambda>i. found pf src i (targets pf ! i)) [0..<length (targets pf)])"
    by simp
  from all assms(3) obtain res where
    w: "bfs_while pf i (targets pf ! i) [(src, [src])] {src} = Inr res" by auto
  with search_None_iff[OF w] assms(4) obtain info where "res = Some info" by auto
  with w have "info \<in> set (found pf src i (targets pf ! i))" by (simp add: found_def)
  moreover from this have "target_index info = i" by (rule found_index)
  ultimately show ?thesis using assms(3) by (auto simp: rs)
qed

text \<open>
  Claim C1. Every \<open>path_info\<close> emitted by \<open>bfs_pathfinding\<close> has a non-empty path that starts at
  the source and ends at the target the result is for (the target at \<open>target_index\<close>), and each
  consecutive pair of the path is a step to a valid neighbour on the same floor or a change of
  floor between two stair cells at the same row and column. Every target that such steps reach
  from the source has a result.
\<close>

theorem bfs_paths_valid:
  assumes "bfs_pathfinding pf = Inr rs"
  shows "(\<forall>r\<in>set rs.
            path r \<noteq> [] \<and> source pf = Some (hd (path r)) \<and> last (path r) = target_position r
            \<and> target_index r < length (targets pf)
            \<and> targets pf ! target_index r = target_position r
            \<and> successively (valid_step pf) (path r))
         \<and> (\<forall>src i. source pf = Some src \<and> i < length (targets pf)
                 \<and> (valid_step pf)\<^sup>*\<^sup>* src (targets pf ! i) \<longrightarrow>
               (\<exists>r\<in>set rs. target_index r = i))"
proof -
  have "path r \<noteq> [] \<and> source pf = Some (hd (path r)) \<and> last (path r) = target_position r
            \<and> target_index r < length (targets pf)
            \<and> targets pf ! target_index r = target_position r
            \<and> successively (valid_step pf) (path r)"
    if "r \<in> set rs" for r
    using bfs_pathfinding_sound[OF assms that] by (auto simp: result_ok_def)
  moreover have "\<exists>r\<in>set rs. target_index r = i"
    if "source pf = Some src \<and> i < length (targets pf)
          \<and> (valid_step pf)\<^sup>*\<^sup>* src (targets pf ! i)" for src i
    using bfs_pathfinding_complete[OF assms, of src i] that by blast
  ultimately show ?thesis by blast
qed

theorem bfs_paths_valid_witness:
  "bfs_pathfinding stairs_pf = Inr [router_result] \<and> router_result \<in> set [router_result]
   \<and> path router_result = router_path \<and> router_path \<noteq> []
   \<and> source stairs_pf = Some (hd router_path) \<and> last router_path = target_position router_result
   \<and> target_index router_result < length (targets stairs_pf)
   \<and> targets stairs_pf ! target_index router_result = target_position router_result
   \<and> successively (valid_step stairs_pf) router_path
   \<and> source stairs_pf = Some (0, 0, 0) \<and> 1 < length (targets stairs_pf)
   \<and> (valid_step stairs_pf)\<^sup>*\<^sup>* (0, 0, 0) (targets stairs_pf ! 1)
   \<and> target_index router_result = 1"
proof -
  have s: "source stairs_pf = Some (0, 0, 0)" "targets stairs_pf = [(0, 2, 0), (1, 0, 0)]"
    by (simp_all add: stairs_pf_def)
  have r: "(valid_step stairs_pf)\<^sup>*\<^sup>* (0, 0, 0) (targets stairs_pf ! 1)"
    using found_reachable[OF search_reachable_stairs] by (simp add: s(2))
  have t: "target_index router_result = 1" by (simp add: router_result_def)
  from bfs_paths_valid[OF bfs_stairs] bfs_stairs s r t
  show ?thesis by (simp add: router_result_def)
qed

text \<open>
  Claim C8. Without a source or without targets \<open>bfs_pathfinding\<close> returns the empty list. For a
  constructed pathfinder with a source it returns a list, without raising; the search for every
  target returns; a target that no sequence of valid steps reaches from the source exhausts the
  queue, and a target that such steps reach is found; a target whose search exhausts the queue
  contributes no result; and every target whose search finds a path contributes that result,
  whatever happened to the targets before it.
\<close>

theorem bfs_soft_failures:
  "(source pf = None \<or> targets pf = [] \<longrightarrow> bfs_pathfinding pf = Inr [])
   \<and> (init bm = Inr pf \<and> source pf = Some src \<longrightarrow>
        (\<exists>rs. bfs_pathfinding pf = Inr rs
           \<and> (\<forall>i<length (targets pf).
                 (\<exists>res. bfs_while pf i (targets pf ! i) [(src, [src])] {src} = Inr res)
                 \<and> (\<not> (valid_step pf)\<^sup>*\<^sup>* src (targets pf ! i) \<longrightarrow>
                      bfs_while pf i (targets pf ! i) [(src, [src])] {src} = Inr None)
                 \<and> (bfs_while pf i (targets pf ! i) [(src, [src])] {src} = Inr None \<longrightarrow>
                      (\<forall>r\<in>set rs. target_index r \<noteq> i))
                 \<and> (\<forall>info. bfs_while pf i (targets pf ! i) [(src, [src])] {src} = Inr (Some info) \<longrightarrow>
                      info \<in> set rs)
                 \<and> ((valid_step pf)\<^sup>*\<^sup>* src (targets pf ! i) \<longrightarrow>
                      (\<exists>info. bfs_while pf i (targets pf ! i) [(src, [src])] {src} = Inr (Some info))))))"
proof (intro conjI impI)
  assume "source pf = None \<or> targets pf = []"
  then show "bfs_pathfinding pf = Inr []"
    by (auto simp: bfs_pathfinding_def split: option.splits)
next
  assume a: "init bm = Inr pf \<and> source pf = Some src"
  then have r: "readable pf" and b: "in_bounds pf src"
    using init_readable'[of bm pf] init_source[of bm pf src] by auto
  have ok: "\<exists>res. bfs_while pf i t [(src, [src])] {src} = Inr res" for i t
    using bfs_while_Inr[OF r, of "[(src, [src])]"] b by simp
  let ?rs = "concat (map (\<lambda>i. found pf src i (targets pf ! i)) [0..<length (targets pf)])"
  have "bfs_targets pf src 0 (targets pf) [] = Inr ?rs"
    using bfs_targets_exact[of "targets pf" pf 0 src "[]"] ok by simp
  then have rs: "bfs_pathfinding pf = Inr ?rs"
    using a by (auto simp: bfs_pathfinding_def)
  have "(\<not> (valid_step pf)\<^sup>*\<^sup>* src (targets pf ! i) \<longrightarrow>
            bfs_while pf i (targets pf ! i) [(src, [src])] {src} = Inr None)
        \<and> (bfs_while pf i (targets pf ! i) [(src, [src])] {src} = Inr None \<longrightarrow>
              (\<forall>r\<in>set ?rs. target_index r \<noteq> i))
        \<and> (\<forall>info. bfs_while pf i (targets pf ! i) [(src, [src])] {src} = Inr (Some info) \<longrightarrow>
              info \<in> set ?rs)
        \<and> ((valid_step pf)\<^sup>*\<^sup>* src (targets pf ! i) \<longrightarrow>
              (\<exists>info. bfs_while pf i (targets pf ! i) [(src, [src])] {src} = Inr (Some info)))"
    if i: "i < length (targets pf)" for i
  proof (intro conjI impI allI)
    assume reach: "(valid_step pf)\<^sup>*\<^sup>* src (targets pf ! i)"
    from ok[of i "targets pf ! i"] obtain res where
      w: "bfs_while pf i (targets pf ! i) [(src, [src])] {src} = Inr res" by blast
    with search_None_iff[OF w] reach
    show "\<exists>info. bfs_while pf i (targets pf ! i) [(src, [src])] {src} = Inr (Some info)"
      by (cases res) (simp_all del: bfs_while.simps)
  next
    assume "\<not> (valid_step pf)\<^sup>*\<^sup>* src (targets pf ! i)"
    with ok[of i "targets pf ! i"] found_reachable[of pf i "targets pf ! i" src]
    show "bfs_while pf i (targets pf ! i) [(src, [src])] {src} = Inr None"
      by (metis option.exhaust)
  next
    assume n: "bfs_while pf i (targets pf ! i) [(src, [src])] {src} = Inr None"
    show "\<forall>r\<in>set ?rs. target_index r \<noteq> i"
    proof
      fix r assume "r \<in> set ?rs"
      then obtain j where j: "j < length (targets pf)" "r \<in> set (found pf src j (targets pf ! j))"
        by auto
      then have "target_index r = j" by (auto dest: found_index)
      moreover have "j \<noteq> i" using j(2) n by (auto simp: found_def)
      ultimately show "target_index r \<noteq> i" by simp
    qed
  next
    fix info
    assume "bfs_while pf i (targets pf ! i) [(src, [src])] {src} = Inr (Some info)"
    then have "info \<in> set (found pf src i (targets pf ! i))" by (simp add: found_def)
    with i show "info \<in> set ?rs" by auto
  qed
  with rs ok show "\<exists>rs. bfs_pathfinding pf = Inr rs
           \<and> (\<forall>i<length (targets pf).
                 (\<exists>res. bfs_while pf i (targets pf ! i) [(src, [src])] {src} = Inr res)
                 \<and> (\<not> (valid_step pf)\<^sup>*\<^sup>* src (targets pf ! i) \<longrightarrow>
                      bfs_while pf i (targets pf ! i) [(src, [src])] {src} = Inr None)
                 \<and> (bfs_while pf i (targets pf ! i) [(src, [src])] {src} = Inr None \<longrightarrow>
                      (\<forall>r\<in>set rs. target_index r \<noteq> i))
                 \<and> (\<forall>info. bfs_while pf i (targets pf ! i) [(src, [src])] {src} = Inr (Some info) \<longrightarrow>
                      info \<in> set rs)
                 \<and> ((valid_step pf)\<^sup>*\<^sup>* src (targets pf ! i) \<longrightarrow>
                      (\<exists>info. bfs_while pf i (targets pf ! i) [(src, [src])] {src} = Inr (Some info))))"
    by blast
qed

text \<open>In the two-floor building the visited set of the exhausted search is closed under valid
  steps, so the walled-off room cannot be reached from the source.\<close>

lemma exhausted_visited_iff:
  "(f, r, c) \<in> exhausted_visited \<longleftrightarrow> (f = 0 \<or> f = 1) \<and> r = 0 \<and> (c = 0 \<or> c = 1 \<or> c = 2 \<or> c = 3)"
  by (auto simp: exhausted_visited_def)

lemma wall_row_stairs:
  "\<forall>f\<in>{0, 1}. \<forall>c\<in>{0, 1, 2, 3}. is_valid_position stairs_pf f 1 c = Inr False"
  by code_simp

lemma is_valid_stairs:
  assumes "is_valid_position stairs_pf f r c = Inr True"
  shows "(f = 0 \<or> f = 1) \<and> (r = 0 \<or> r = 2) \<and> (c = 0 \<or> c = 1 \<or> c = 2 \<or> c = 3)"
proof -
  from is_valid_in_bounds[OF assms]
  have b: "0 \<le> f" "f < 2" "0 \<le> r" "r < 3" "0 \<le> c" "c < 4"
    by (simp_all add: in_bounds_def stairs_pf_def)
  then have fc: "f \<in> {0, 1}" "c \<in> {0, 1, 2, 3}" by auto
  have "r \<noteq> 1"
  proof
    assume "r = 1"
    with wall_row_stairs fc have "is_valid_position stairs_pf f r c = Inr False" by blast
    with assms show False by simp
  qed
  with b fc show ?thesis by auto
qed

lemma closed_stairs:
  assumes "a \<in> exhausted_visited" "valid_step stairs_pf a b"
  shows "b \<in> exhausted_visited"
proof -
  obtain f1 r1 c1 f2 r2 c2 where ab: "a = (f1, r1, c1)" "b = (f2, r2, c2)"
    by (cases a; cases b) auto
  from assms(1) have a: "f1 = 0 \<or> f1 = 1" "r1 = 0"
    by (simp_all add: ab exhausted_visited_iff)
  from assms(2) consider (n) "neighbour_step stairs_pf a b" | (s) "stair_step stairs_pf a b"
    by (auto simp: valid_step_def)
  then show ?thesis
  proof cases
    case n
    then have e: "f1 = f2" "\<bar>r2 - r1\<bar> + \<bar>c2 - c1\<bar> = 1"
      and v: "is_valid_position stairs_pf f2 r2 c2 = Inr True"
      by (simp_all add: neighbour_step_def ab)
    from is_valid_stairs[OF v] e a have "r2 = 0" by auto
    with is_valid_stairs[OF v] show ?thesis
      by (simp add: ab exhausted_visited_iff)
  next
    case s
    then have e: "r1 = r2" "c1 = c2" "0 \<le> f2" "f2 < 2"
      by (simp_all add: stair_step_def ab stairs_pf_def)
    then have "f2 = 0 \<or> f2 = 1" by auto
    with assms(1) e show ?thesis
      by (simp add: ab exhausted_visited_iff)
  qed
qed

lemma unreachable_stairs: "\<not> (valid_step stairs_pf)\<^sup>*\<^sup>* (0, 0, 0) (0, 2, 0)"
proof
  assume "(valid_step stairs_pf)\<^sup>*\<^sup>* (0, 0, 0) (0, 2, 0)"
  then have "(0, 2, 0) \<in> exhausted_visited"
  proof (induction rule: rtranclp_induct)
    case base
    show ?case by (simp add: exhausted_visited_iff)
  next
    case (step y z)
    then show ?case by (blast intro: closed_stairs)
  qed
  then show False by (simp add: exhausted_visited_iff)
qed

theorem bfs_soft_failures_witness:
  "source empty_pf = None \<and> bfs_pathfinding empty_pf = Inr []
   \<and> init stairs_grid = Inr stairs_pf \<and> source stairs_pf = Some (0, 0, 0)
   \<and> targets stairs_pf = [(0, 2, 0), (1, 0, 0)]
   \<and> bfs_pathfinding stairs_pf = Inr [router_result]
   \<and> \<not> (valid_step stairs_pf)\<^sup>*\<^sup>* (0, 0, 0) (0, 2, 0)
   \<and> bfs_while stairs_pf 0 (0, 2, 0) [((0, 0, 0), [(0, 0, 0)])] {(0, 0, 0)} = Inr None
   \<and> target_index router_result \<noteq> 0
   \<and> bfs_while stairs_pf 1 (1, 0, 0) [((0, 0, 0), [(0, 0, 0)])] {(0, 0, 0)} = Inr (Some router_result)
   \<and> router_result \<in> set [router_result]"
proof -
  have e: "source empty_pf = None" by (simp add: empty_pf_def)
  have s: "source stairs_pf = Some (0, 0, 0)" "targets stairs_pf = [(0, 2, 0), (1, 0, 0)]"
    by (simp_all add: stairs_pf_def)
  from bfs_soft_failures[of empty_pf "[]" "(0, 0, 0)"] e
  have 1: "bfs_pathfinding empty_pf = Inr []" by blast
  from bfs_soft_failures[of stairs_pf stairs_grid "(0, 0, 0)"] init_stairs s(1)
  obtain rs where rs: "bfs_pathfinding stairs_pf = Inr rs"
    and a: "\<forall>i<length (targets stairs_pf).
                 (\<not> (valid_step stairs_pf)\<^sup>*\<^sup>* (0, 0, 0) (targets stairs_pf ! i) \<longrightarrow>
                      bfs_while stairs_pf i (targets stairs_pf ! i) [((0, 0, 0), [(0, 0, 0)])] {(0, 0, 0)} = Inr None)
                 \<and> (bfs_while stairs_pf i (targets stairs_pf ! i) [((0, 0, 0), [(0, 0, 0)])] {(0, 0, 0)} = Inr None \<longrightarrow>
                      (\<forall>r\<in>set rs. target_index r \<noteq> i))
                 \<and> (\<forall>info. bfs_while stairs_pf i (targets stairs_pf ! i) [((0, 0, 0), [(0, 0, 0)])] {(0, 0, 0)} = Inr (Some info) \<longrightarrow>
                      info \<in> set rs)"
    by blast
  from rs bfs_stairs have r: "rs = [router_result]" by simp
  from a[rule_format, of 0] unreachable_stairs
  have 2: "bfs_while stairs_pf 0 (0, 2, 0) [((0, 0, 0), [(0, 0, 0)])] {(0, 0, 0)} = Inr None"
    "\<forall>r\<in>set rs. target_index r \<noteq> 0"
    by (simp_all add: s(2) del: bfs_while.simps)
  from a[rule_format, of 1] search_reachable_stairs
  have 3: "router_result \<in> set rs"
    by (simp add: s(2) del: bfs_while.simps)
  from 1 2 3 e s init_stairs bfs_stairs unreachable_stairs search_reachable_stairs
  show ?thesis by (simp add: r del: bfs_while.simps)
qed

section \<open>The path simplifier: cost\<close>

lemma pair_cost_spec_append:
  assumes "i < length xs"
  shows "pair_cost_spec (xs @ ys) i = pair_cost_spec xs i"
proof -
  have "(xs @ ys) ! i = xs ! i" "(xs @ ys) ! (i - 1) = xs ! (i - 1)"
    "(xs @ ys) ! (i - 2) = xs ! (i - 2)"
    using assms less_imp_diff_less[OF assms, of 1] less_imp_diff_less[OF assms, of 2]
    by (simp_all add: nth_append)
  then show ?thesis by (simp only: pair_cost_spec_def)
qed

lemma pair_cost_spec_last:
  assumes "xs \<noteq> []"
  shows "pair_cost_spec (xs @ [b]) (length xs) = step_cost (last xs) b + turn_cost xs b"
proof -
  have "(xs @ [b]) ! length xs = b" "(xs @ [b]) ! (length xs - 1) = last xs"
    "(xs @ [b]) ! (length xs - 2) = xs ! (length xs - 2)"
    using assms by (simp_all add: nth_append last_conv_nth)
  then show ?thesis
    by (simp only: pair_cost_spec_def step_cost_def turn_cost_def base_pressure_def
          vertical_up_def vertical_down_def horizontal_def turn_def)
qed

lemma energy_cost_sum:
  "calculate_energy_cost xs = sum_list (map (pair_cost_spec xs) [1..<length xs])"
proof (cases "length xs < 2")
  case True
  then have "[1..<length xs] = []" by simp
  with True show ?thesis by (simp add: calculate_energy_cost_def)
next
  case False
  then show ?thesis by (simp add: calculate_energy_cost_def fold_energy_step)
qed

lemma energy_cost_snoc:
  assumes "xs \<noteq> []"
  shows "calculate_energy_cost (xs @ [b])
           = calculate_energy_cost xs + step_cost (last xs) b + turn_cost xs b"
proof -
  have m: "map (pair_cost_spec (xs @ [b])) [1..<length xs] = map (pair_cost_spec xs) [1..<length xs]"
    by (rule map_cong) (simp_all add: pair_cost_spec_append)
  have "1 \<le> length xs" using assms by (cases xs) simp_all
  then have u: "[1..<length (xs @ [b])] = [1..<length xs] @ [length xs]"
    by simp
  have "calculate_energy_cost (xs @ [b])
      = sum_list (map (pair_cost_spec (xs @ [b])) ([1..<length xs] @ [length xs]))"
    unfolding energy_cost_sum[of "xs @ [b]"] u ..
  also have "\<dots> = sum_list (map (pair_cost_spec xs) [1..<length xs])
                   + pair_cost_spec (xs @ [b]) (length xs)"
    by (simp only: map_append sum_list_append m) simp
  finally show ?thesis
    by (simp only: energy_cost_sum[of xs] pair_cost_spec_last[OF assms] add.assoc)
qed

lemma step_cost_ge: "11 / 10 \<le> step_cost a b"
  by (simp add: step_cost_def base_pressure_def vertical_up_def vertical_down_def horizontal_def)

lemma step_cost_same_floor: "fst a = fst b \<Longrightarrow> step_cost a b = 11 / 10"
  by (simp add: step_cost_def base_pressure_def horizontal_def)

lemma turn_cost_bounds: "0 \<le> turn_cost xs b" "turn_cost xs b \<le> 1 / 2"
  by (simp_all add: turn_cost_def turn_def)

lemma turn_cost_cong:
  assumes "xs \<noteq> []" "ys \<noteq> []" "last xs = last ys"
  shows "turn_cost (xs @ [c]) b = turn_cost (ys @ [c]) b"
proof -
  have "(xs @ [c]) ! (length (xs @ [c]) - 2) = last xs"
    "(ys @ [c]) ! (length (ys @ [c]) - 2) = last ys"
    using assms(1,2) by (simp_all add: nth_append last_conv_nth)
  moreover have "2 \<le> length (xs @ [c])" "2 \<le> length (ys @ [c])"
    using assms(1,2) by (simp_all add: Suc_le_eq)
  ultimately show ?thesis
    using assms(3) by (simp only: turn_cost_def last_snoc) 
qed


lemma saving_inv_keep:
  assumes "saving_inv pf opt pre c" "opt \<noteq> []" "pre \<noteq> []"
  shows "calculate_energy_cost (opt @ [c]) \<le> calculate_energy_cost (pre @ [c])"
    and "saving_inv pf (opt @ [c]) (pre @ [c]) d"
proof -
  note so = energy_cost_snoc[OF assms(2), of c] and sp = energy_cost_snoc[OF assms(3), of c]
  note t = turn_cost_bounds[of opt c] turn_cost_bounds[of pre c] step_cost_ge[of "last pre" c]
  from assms(1) consider
    (same) "last opt = last pre" "\<forall>b. turn_cost opt b = turn_cost pre b"
      "calculate_energy_cost opt \<le> calculate_energy_cost pre"
    | (slack) "last opt = last pre" "calculate_energy_cost opt + 1 / 2 \<le> calculate_energy_cost pre"
    | (pending) "can_go_direct pf (last opt) c = Inr True"
      "calculate_energy_cost opt + 11 / 10 \<le> calculate_energy_cost pre"
    unfolding saving_inv_def by blast
  then have "(last opt = last pre
               \<and> calculate_energy_cost (opt @ [c]) \<le> calculate_energy_cost (pre @ [c]))
             \<or> calculate_energy_cost (opt @ [c]) + 1 / 2 \<le> calculate_energy_cost (pre @ [c])"
  proof cases
    case same
    from same(2) have "turn_cost opt c = turn_cost pre c" by blast
    with same(1,3) show ?thesis using so sp by simp
  next
    case slack
    then show ?thesis using so sp t by simp
  next
    case pending
    from can_go_direct_floor[OF pending(1)] have "step_cost (last opt) c = 11 / 10"
      by (rule step_cost_same_floor)
    then show ?thesis using so sp t pending(2) by simp
  qed
  then show "calculate_energy_cost (opt @ [c]) \<le> calculate_energy_cost (pre @ [c])"
    by auto
  from \<open>_ \<or> _\<close> show "saving_inv pf (opt @ [c]) (pre @ [c]) d"
    unfolding saving_inv_def
    using turn_cost_cong[OF assms(2,3), of c] by auto
qed

lemma saving_inv_drop:
  assumes "saving_inv pf opt pre c" "pre \<noteq> []" "can_go_direct pf (last opt) d = Inr True"
  shows "saving_inv pf opt (pre @ [c]) d"
proof -
  from assms(1) have "calculate_energy_cost opt \<le> calculate_energy_cost pre"
    unfolding saving_inv_def by auto
  then have "calculate_energy_cost opt + 11 / 10 \<le> calculate_energy_cost (pre @ [c])"
    using energy_cost_snoc[OF assms(2), of c] turn_cost_bounds(1)[of pre c]
      step_cost_ge[of "last pre" c] by simp
  with assms(3) show ?thesis unfolding saving_inv_def by blast
qed

lemma optimize_loop_cost:
  "optimize_loop pf opt R = Inr out \<Longrightarrow> R \<noteq> [] \<Longrightarrow> opt \<noteq> [] \<Longrightarrow> pre \<noteq> [] \<Longrightarrow>
   saving_inv pf opt pre (hd R) \<Longrightarrow>
   calculate_energy_cost (out @ [last R]) \<le> calculate_energy_cost (pre @ R)"
proof (induction pf opt R arbitrary: pre rule: optimize_loop.induct)
  case (1 pf optimized curr_pos next_pos rest)
  note prems = "1.prems"
  from prems(1) obtain direct where d: "can_go_direct pf (last optimized) next_pos = Inr direct"
    by (auto split: sum.splits)
  have inv: "saving_inv pf optimized pre curr_pos" using prems(5) by simp
  show ?case
  proof (cases direct)
    case True
    with prems(1) d have call: "optimize_loop pf optimized (next_pos # rest) = Inr out" by simp
    have "saving_inv pf optimized (pre @ [curr_pos]) (hd (next_pos # rest))"
      using saving_inv_drop[OF inv prems(4)] d True by simp
    from "1.IH"(1)[OF d True call _ prems(3) _ this] show ?thesis by simp
  next
    case False
    with prems(1) d have call: "optimize_loop pf (optimized @ [curr_pos]) (next_pos # rest) = Inr out"
      by simp
    have "saving_inv pf (optimized @ [curr_pos]) (pre @ [curr_pos]) (hd (next_pos # rest))"
      by (rule saving_inv_keep(2)[OF inv prems(3,4)])
    from "1.IH"(2)[OF d False call _ _ _ this] show ?thesis by simp
  qed
qed (auto dest: saving_inv_keep(1))

lemma optimize_path_turns_cost:
  assumes "optimize_path_turns pf p = Inr q"
  shows "calculate_energy_cost q \<le> calculate_energy_cost p"
proof (cases "length p \<le> 2")
  case True
  with assms show ?thesis by (simp add: optimize_path_turns_def)
next
  case False
  then obtain a b rest where p: "p = a # b # rest" "rest \<noteq> []"
    by (cases p; cases "tl p") auto
  from assms False obtain optimized where
    o: "optimize_loop pf [a] (b # rest) = Inr optimized" "q = optimized @ [last p]"
    by (auto simp: optimize_path_turns_def p split: sum.splits)
  have "saving_inv pf [a] [a] (hd (b # rest))"
    by (simp add: saving_inv_def)
  from optimize_loop_cost[OF o(1) _ _ _ this] show ?thesis
    by (simp add: o(2) p)
qed

lemma all_valid_Inr: "readable pf \<Longrightarrow> \<exists>ok. all_valid pf ps = Inr ok"
proof (induction pf ps rule: all_valid.induct)
  case (1 pf)
  then show ?case by auto
next
  case (2 pf f r c ps)
  from is_valid_Inr[OF "2.prems"] obtain ok where ok: "is_valid_position pf f r c = Inr ok"
    by blast
  show ?case
  proof (cases ok)
    case True
    with "2.IH"[OF ok _ "2.prems"] ok show ?thesis by simp
  next
    case False
    with ok show ?thesis by auto
  qed
qed

lemma can_go_direct_Inr: "readable pf \<Longrightarrow> \<exists>direct. can_go_direct pf a b = Inr direct"
  using all_valid_Inr[of pf]
  by (cases a; cases b) (auto simp: can_go_direct_def Let_def)

lemma optimize_loop_Inr: "readable pf \<Longrightarrow> \<exists>out. optimize_loop pf opt R = Inr out"
proof (induction pf opt R rule: optimize_loop.induct)
  case (1 pf optimized curr_pos next_pos rest)
  from can_go_direct_Inr[OF "1.prems"] obtain direct where
    d: "can_go_direct pf (last optimized) next_pos = Inr direct" by blast
  show ?case
  proof (cases direct)
    case True
    with "1.IH"(1)[OF d True "1.prems"] d show ?thesis by simp
  next
    case False
    with "1.IH"(2)[OF d False "1.prems"] d show ?thesis by simp
  qed
qed simp_all

lemma optimize_path_turns_Inr: "readable pf \<Longrightarrow> \<exists>q. optimize_path_turns pf p = Inr q"
  using optimize_loop_Inr[of pf "[p ! 0]" "tl p"]
  by (auto simp: optimize_path_turns_def)

lemma optimize_results_Inr:
  "readable pf \<Longrightarrow> \<exists>out. optimize_results pf rs acc = Inr out"
proof (induction pf rs acc rule: optimize_results.induct)
  case (1 pf optimized_paths)
  then show ?case by simp
next
  case (2 pf info rest optimized_paths)
  from optimize_path_turns_Inr[OF "2.prems"] obtain q where
    q: "optimize_path_turns pf (path info) = Inr q" by blast
  show ?case
  proof (cases "calculate_energy_cost q < energy_cost info")
    case True
    with "2.IH"(1)[OF refl refl q refl True "2.prems"] q show ?thesis by (simp add: Let_def)
  next
    case False
    with "2.IH"(2)[OF refl refl q refl False "2.prems"] q show ?thesis by (simp add: Let_def)
  qed
qed

lemma optimize_results_rel:
  "optimize_results pf rs acc = Inr out \<Longrightarrow>
   \<exists>news. out = acc @ news \<and> list_all2 (optimized_info pf) rs news"
proof (induction pf rs acc arbitrary: out rule: optimize_results.induct)
  case (1 pf optimized_paths)
  then show ?case by simp
next
  case (2 pf info rest optimized_paths)
  from "2.prems" obtain q where q: "optimize_path_turns pf (path info) = Inr q"
    by (auto simp: Let_def split: sum.splits)
  let ?new = "if calculate_energy_cost q < energy_cost info
                   then info \<lparr> path := q, energy_cost := calculate_energy_cost q,
                               steps := length q,
                               energy_saved := Some (energy_cost info - calculate_energy_cost q) \<rparr>
                   else info \<lparr> energy_saved := Some 0 \<rparr>"
  have oi: "optimized_info pf info ?new"
    unfolding optimized_info_def using q by blast
  show ?case
  proof (cases "calculate_energy_cost q < energy_cost info")
    case True
    with "2.prems" q have "optimize_results pf rest (optimized_paths @ [?new]) = Inr out"
      by (simp add: Let_def)
    from "2.IH"(1)[OF refl refl q refl True this[unfolded if_P[OF True]]] oi True
    show ?thesis by auto
  next
    case False
    with "2.prems" q have "optimize_results pf rest (optimized_paths @ [?new]) = Inr out"
      by (simp add: Let_def)
    from "2.IH"(2)[OF refl refl q refl False this[unfolded if_not_P[OF False]]] oi False
    show ?thesis by auto
  qed
qed

lemma optimize_energy_usage_rel:
  "optimize_energy_usage pf rs = Inr out \<Longrightarrow> list_all2 (optimized_info pf) rs out"
  using optimize_results_rel[of pf rs "[]" out] by (simp add: optimize_energy_usage_def)

text \<open>
  Claim C3. For every list of results \<open>optimize_energy_usage\<close> returns one result per input
  (and it returns, on a constructed pathfinder). The energy cost of the returned path is at most
  the energy cost of the original path, and the stored cost never grows. With \<open>q\<close> the simplified
  path: if the recomputed cost of \<open>q\<close> is strictly lower than the stored cost, then path, cost
  and steps are replaced and \<open>energy_saved\<close> is the difference; otherwise the result is the
  input with \<open>energy_saved = 0\<close>.
\<close>

theorem optimize_never_increases:
  "(init bm = Inr pf \<longrightarrow> (\<exists>out. optimize_energy_usage pf rs = Inr out))
   \<and> (optimize_energy_usage pf rs = Inr out \<longrightarrow>
        length out = length rs
        \<and> (\<forall>i<length rs.
              calculate_energy_cost (path (out ! i)) \<le> calculate_energy_cost (path (rs ! i))
              \<and> energy_cost (out ! i) \<le> energy_cost (rs ! i)
              \<and> (\<exists>q. optimize_path_turns pf (path (rs ! i)) = Inr q
                    \<and> (calculate_energy_cost q < energy_cost (rs ! i) \<longrightarrow>
                          out ! i = (rs ! i) \<lparr> path := q, energy_cost := calculate_energy_cost q,
                                      steps := length q,
                                      energy_saved := Some (energy_cost (rs ! i) - calculate_energy_cost q) \<rparr>)
                    \<and> (\<not> calculate_energy_cost q < energy_cost (rs ! i) \<longrightarrow>
                          out ! i = (rs ! i) \<lparr> energy_saved := Some 0 \<rparr>))))"
proof (intro conjI impI allI)
  assume "init bm = Inr pf"
  then have "readable pf" by (rule init_readable')
  from optimize_results_Inr[OF this] show "\<exists>out. optimize_energy_usage pf rs = Inr out"
    by (simp add: optimize_energy_usage_def)
next
  assume "optimize_energy_usage pf rs = Inr out"
  from optimize_energy_usage_rel[OF this] show "length out = length rs"
    by (simp add: list_all2_lengthD)
next
  fix i
  assume o: "optimize_energy_usage pf rs = Inr out" and i: "i < length rs"
  from optimize_energy_usage_rel[OF o] i have "optimized_info pf (rs ! i) (out ! i)"
    by (simp add: list_all2_nthD)
  then obtain q where q: "optimize_path_turns pf (path (rs ! i)) = Inr q"
    and new: "out ! i = (if calculate_energy_cost q < energy_cost (rs ! i)
                   then (rs ! i) \<lparr> path := q, energy_cost := calculate_energy_cost q,
                               steps := length q,
                               energy_saved := Some (energy_cost (rs ! i) - calculate_energy_cost q) \<rparr>
                   else (rs ! i) \<lparr> energy_saved := Some 0 \<rparr>)"
    unfolding optimized_info_def by blast
  note c = optimize_path_turns_cost[OF q]
  show "calculate_energy_cost (path (out ! i)) \<le> calculate_energy_cost (path (rs ! i))"
    using c by (simp add: new)
  show "energy_cost (out ! i) \<le> energy_cost (rs ! i)"
    by (simp add: new)
  show "\<exists>q. optimize_path_turns pf (path (rs ! i)) = Inr q
           \<and> (calculate_energy_cost q < energy_cost (rs ! i) \<longrightarrow>
                  out ! i = (rs ! i) \<lparr> path := q, energy_cost := calculate_energy_cost q,
                              steps := length q,
                              energy_saved := Some (energy_cost (rs ! i) - calculate_energy_cost q) \<rparr>)
           \<and> (\<not> calculate_energy_cost q < energy_cost (rs ! i) \<longrightarrow>
                  out ! i = (rs ! i) \<lparr> energy_saved := Some 0 \<rparr>)"
    using q new by (intro exI[of _ q]) simp
qed

theorem optimize_never_increases_witness:
  "init stairs_grid = Inr stairs_pf
   \<and> optimize_energy_usage stairs_pf [router_result, short_result]
        = Inr [simplified_result, short_result \<lparr> energy_saved := Some 0 \<rparr>]
   \<and> calculate_energy_cost (path simplified_result) \<le> calculate_energy_cost (path router_result)
   \<and> energy_cost simplified_result \<le> energy_cost router_result
   \<and> optimize_path_turns stairs_pf (path router_result) = Inr simplified_path
   \<and> calculate_energy_cost simplified_path < energy_cost router_result
   \<and> simplified_result = router_result \<lparr> path := simplified_path,
          energy_cost := calculate_energy_cost simplified_path, steps := length simplified_path,
          energy_saved := Some (energy_cost router_result - calculate_energy_cost simplified_path) \<rparr>
   \<and> optimize_path_turns stairs_pf (path short_result) = Inr (path short_result)
   \<and> \<not> calculate_energy_cost (path short_result) < energy_cost short_result
   \<and> calculate_energy_cost (path (short_result \<lparr> energy_saved := Some 0 \<rparr>))
        \<le> calculate_energy_cost (path short_result)"
proof -
  let ?rs = "[router_result, short_result]"
  let ?out = "[simplified_result, short_result \<lparr> energy_saved := Some 0 \<rparr>]"
  note t = optimize_never_increases[of stairs_grid stairs_pf ?rs ?out]
  from t optimize_two_stairs
  have a: "\<forall>i<length ?rs.
              calculate_energy_cost (path (?out ! i)) \<le> calculate_energy_cost (path (?rs ! i))
              \<and> energy_cost (?out ! i) \<le> energy_cost (?rs ! i)"
    by blast
  from a[rule_format, of 0] a[rule_format, of 1]
  have "calculate_energy_cost (path simplified_result) \<le> calculate_energy_cost (path router_result)"
    "energy_cost simplified_result \<le> energy_cost router_result"
    "calculate_energy_cost (path (short_result \<lparr> energy_saved := Some 0 \<rparr>))
        \<le> calculate_energy_cost (path short_result)"
    by simp_all
  moreover have "path router_result = router_path" by (simp add: router_result_def)
  moreover have "simplified_result = router_result \<lparr> path := simplified_path,
          energy_cost := calculate_energy_cost simplified_path, steps := length simplified_path,
          energy_saved := Some (energy_cost router_result - calculate_energy_cost simplified_path) \<rparr>"
    by (simp add: costs_stairs simplified_result_def router_result_def) (simp add: simplified_path_def)
  moreover have "calculate_energy_cost simplified_path < energy_cost router_result"
    "\<not> calculate_energy_cost (path short_result) < energy_cost short_result"
    by (simp_all add: costs_stairs) (simp_all add: router_result_def short_result_def)
  ultimately show ?thesis
    using init_stairs optimize_two_stairs simplify_router_path simplify_short_path by simp
qed

text \<open>
  Claim C4. Every \<open>path_info\<close> emitted by \<open>bfs_pathfinding\<close> stores the energy cost of its path,
  and so does every \<open>path_info\<close> that \<open>optimize_energy_usage\<close> returns for the output of
  \<open>bfs_pathfinding\<close>: the stored cost is never inconsistent with the path it accompanies. More
  generally \<open>optimize_energy_usage\<close> keeps this property of any list that has it.
\<close>

theorem energy_cost_consistent:
  "(bfs_pathfinding pf = Inr rs \<longrightarrow> (\<forall>r\<in>set rs. energy_cost r = calculate_energy_cost (path r)))
   \<and> (bfs_pathfinding pf = Inr rs \<and> optimize_energy_usage pf rs = Inr out \<longrightarrow>
        (\<forall>r\<in>set out. energy_cost r = calculate_energy_cost (path r)))
   \<and> ((\<forall>r\<in>set rs'. energy_cost r = calculate_energy_cost (path r))
        \<and> optimize_energy_usage pf rs' = Inr out' \<longrightarrow>
        (\<forall>r\<in>set out'. energy_cost r = calculate_energy_cost (path r)))"
proof -
  have bfs: "\<forall>r\<in>set rs. energy_cost r = calculate_energy_cost (path r)"
    if "bfs_pathfinding pf = Inr rs" for rs
    using bfs_pathfinding_sound[OF that] by (auto simp: result_ok_def)
  have keep: "\<forall>r\<in>set out. energy_cost r = calculate_energy_cost (path r)"
    if c: "\<forall>r\<in>set rs. energy_cost r = calculate_energy_cost (path r)"
      and o: "optimize_energy_usage pf rs = Inr out" for rs out
  proof
    fix r assume "r \<in> set out"
    then obtain i where i: "i < length out" "r = out ! i" by (auto simp: in_set_conv_nth)
    from optimize_energy_usage_rel[OF o] i have "optimized_info pf (rs ! i) r" "i < length rs"
      by (simp_all add: list_all2_nthD2 list_all2_lengthD)
    with c show "energy_cost r = calculate_energy_cost (path r)"
      by (auto simp: optimized_info_def split: if_splits)
  qed
  from bfs keep show ?thesis by blast
qed


theorem energy_cost_consistent_witness:
  "bfs_pathfinding stairs_pf = Inr [router_result]
   \<and> optimize_energy_usage stairs_pf [router_result] = Inr [simplified_result]
   \<and> energy_cost router_result = calculate_energy_cost (path router_result)
   \<and> energy_cost simplified_result = calculate_energy_cost (path simplified_result)"
  using energy_cost_consistent[of stairs_pf "[router_result]" "[simplified_result]" "[router_result]" "[simplified_result]"]
    bfs_stairs optimize_stairs
  by simp

end
